theory Spec2Isabelle
  imports Main "HOL-Library.Word"
begin

unbundle bit_operations_syntax

section \<open>Common types\<close>

text \<open>
  A shallow embedding of \<^verbatim>\<open>src/common/crypto.c\<close>. Buffers are byte lists; a C function
  that writes into a caller's buffer returns the bytes it wrote. Sizes (\<^verbatim>\<open>size_t\<close>) are
  natural numbers; where the C code subtracts sizes, the case that would wrap around is
  written out. A function that returns \<^verbatim>\<open>-1\<close> yields \<open>Inl Err\<close>; a failed
  \<^verbatim>\<open>tor_assert\<close> (the process aborts) yields \<open>Inl Assert\<close>; a read or a write past
  the end of a buffer yields \<open>Inl Undefined\<close>.

  The integer widths are those of an LP64 build: \<^verbatim>\<open>int\<close> and \<^verbatim>\<open>unsigned int\<close> have 32
  bits, \<^verbatim>\<open>size_t\<close> and \<^verbatim>\<open>ssize_t\<close> have 64. \<open>size_t_of\<close> is the value a product of
  sizes has after it wrapped around, \<open>ssize_t_of\<close> the value of the cast
  \<^verbatim>\<open>(ssize_t)\<close> of a size.
\<close>

type_synonym byte = "8 word"
type_synonym u32 = "32 word"

datatype crypto_err = Err | Assert | Undefined

definition INT_MAX :: nat where
  "INT_MAX = 2147483647"

definition size_t_of :: "nat \<Rightarrow> nat" where
  "size_t_of n = n mod 2 ^ 64"

definition ssize_t_of :: "nat \<Rightarrow> int" where
  "ssize_t_of n = (if size_t_of n < 2 ^ 63 then int (size_t_of n) else int (size_t_of n) - 2 ^ 64)"

definition DIGEST_LEN :: nat where
  "DIGEST_LEN = 20"

definition CIPHER_KEY_LEN :: nat where
  "CIPHER_KEY_LEN = 16"

definition CIPHER_IV_LEN :: nat where
  "CIPHER_IV_LEN = 16"

definition bytes_of :: "string \<Rightarrow> byte list" where
  "bytes_of s = map (\<lambda>c. of_nat (of_char c)) s"

section \<open>SHA-1 (OpenSSL's \<^verbatim>\<open>SHA1\<close>, \<^verbatim>\<open>SHA1_Init/Update/Final\<close>)\<close>

text \<open>
  The hash is OpenSSL's, outside the repository. It is modelled by the FIPS 180 algorithm.
  A 32-bit word is its unsigned value, with the reduction modulo \<open>2 ^ 32\<close> written out.
\<close>

definition add32 :: "nat \<Rightarrow> nat \<Rightarrow> nat" where
  "add32 a b = (a + b) mod 4294967296"

definition rotl32 :: "nat \<Rightarrow> nat \<Rightarrow> nat" where
  "rotl32 n x = (x * 2 ^ n) mod 4294967296 + x div 2 ^ (32 - n)"

definition not32 :: "nat \<Rightarrow> nat" where
  "not32 x = x XOR 4294967295"

definition sha1_f :: "nat \<Rightarrow> nat \<Rightarrow> nat \<Rightarrow> nat \<Rightarrow> nat" where
  "sha1_f t b c d =
     (if t < 20 then (b AND c) OR (not32 b AND d)
      else if t < 40 then b XOR c XOR d
      else if t < 60 then (b AND c) OR (b AND d) OR (c AND d)
      else b XOR c XOR d)"

definition sha1_k :: "nat \<Rightarrow> nat" where
  "sha1_k t =
     (if t < 20 then 0x5A827999 else if t < 40 then 0x6ED9EBA1
      else if t < 60 then 0x8F1BBCDC else 0xCA62C1D6)"

type_synonym sha1_h = "nat \<times> nat \<times> nat \<times> nat \<times> nat"

text \<open>The message schedule as a sliding window of sixteen words.\<close>

fun sha1_sched :: "nat list \<Rightarrow> nat list" where
  "sha1_sched (w0 # w1 # w2 # w3 # w4 # w5 # w6 # w7 # w8 # w9 # w10 # w11 # w12 # w13 # ws) =
     w1 # w2 # w3 # w4 # w5 # w6 # w7 # w8 # w9 # w10 # w11 # w12 # w13 # ws
       @ [rotl32 1 (w13 XOR w8 XOR w2 XOR w0)]"
| "sha1_sched ws = ws"

fun sha1_step :: "nat \<Rightarrow> nat \<Rightarrow> sha1_h \<Rightarrow> sha1_h" where
  "sha1_step t wt (a, b, c, d, e) =
     (add32 (add32 (add32 (add32 (rotl32 5 a) (sha1_f t b c d)) e) wt) (sha1_k t),
      a, rotl32 30 b, c, d)"

function sha1_rounds :: "nat \<Rightarrow> nat list \<Rightarrow> sha1_h \<Rightarrow> sha1_h" where
  "sha1_rounds t w h =
     (if 80 \<le> t then h
      else sha1_rounds (t + 1) (sha1_sched w) (sha1_step t (hd w) h))"
  by pat_completeness auto
termination
  by (relation "measure (\<lambda>(t, w, h). 80 - t)") auto

declare sha1_rounds.simps [simp del]

fun sha1_add :: "sha1_h \<Rightarrow> sha1_h \<Rightarrow> sha1_h" where
  "sha1_add (h0, h1, h2, h3, h4) (a, b, c, d, e) =
     (add32 h0 a, add32 h1 b, add32 h2 c, add32 h3 d, add32 h4 e)"

definition sha1_compress :: "sha1_h \<Rightarrow> nat list \<Rightarrow> sha1_h" where
  "sha1_compress h w = sha1_add h (sha1_rounds 0 w h)"

definition sha1_init :: sha1_h where
  "sha1_init = (0x67452301, 0xEFCDAB89, 0x98BADCFE, 0x10325476, 0xC3D2E1F0)"

fun sha1_blocks :: "sha1_h \<Rightarrow> nat list \<Rightarrow> sha1_h" where
  "sha1_blocks h (w0 # w1 # w2 # w3 # w4 # w5 # w6 # w7 # w8 # w9 # w10 # w11 # w12 # w13
       # w14 # w15 # ws) =
     sha1_blocks
       (sha1_compress h [w0, w1, w2, w3, w4, w5, w6, w7, w8, w9, w10, w11, w12, w13, w14, w15])
       ws"
| "sha1_blocks h ws = h"

fun sha1_words :: "byte list \<Rightarrow> nat list" where
  "sha1_words (a # b # c # d # bs) =
     (unat a * 16777216 + unat b * 65536 + unat c * 256 + unat d) # sha1_words bs"
| "sha1_words bs = []"

definition be64_bytes :: "nat \<Rightarrow> byte list" where
  "be64_bytes n =
     [of_nat (n div 72057594037927936), of_nat (n div 281474976710656),
      of_nat (n div 1099511627776), of_nat (n div 4294967296),
      of_nat (n div 16777216), of_nat (n div 65536), of_nat (n div 256), of_nat n]"

definition sha1_pad :: "byte list \<Rightarrow> byte list" where
  "sha1_pad m =
     m @ [0x80] @ replicate ((119 - length m mod 64) mod 64) 0 @ be64_bytes (8 * length m)"

definition be32_bytes :: "nat \<Rightarrow> byte list" where
  "be32_bytes w = [of_nat (w div 16777216), of_nat (w div 65536), of_nat (w div 256), of_nat w]"

fun sha1_out :: "sha1_h \<Rightarrow> byte list" where
  "sha1_out (a, b, c, d, e) =
     be32_bytes a @ be32_bytes b @ be32_bytes c @ be32_bytes d @ be32_bytes e"

definition SHA1 :: "byte list \<Rightarrow> byte list" where
  "SHA1 m = sha1_out (sha1_blocks sha1_init (sha1_words (sha1_pad m)))"

text \<open>
  Proof device: \<open>n - i\<close> compressions of the all-zero block, counted upwards so that a
  concrete count unfolds by rewriting.
\<close>

definition sha1_zero16 :: "nat list" where
  "sha1_zero16 = [0, 0, 0, 0, 0, 0, 0, 0, 0, 0, 0, 0, 0, 0, 0, 0]"

function sha1_zero_blocks :: "nat \<Rightarrow> nat \<Rightarrow> sha1_h \<Rightarrow> sha1_h" where
  "sha1_zero_blocks i n h =
     (if n \<le> i then h else sha1_zero_blocks (i + 1) n (sha1_compress h sha1_zero16))"
  by pat_completeness auto
termination
  by (relation "measure (\<lambda>(i, n, h). n - i)") auto

declare sha1_zero_blocks.simps [simp del]

section \<open>Digests (\<^verbatim>\<open>crypto_digest\<close>, \<^verbatim>\<open>crypto_digest_env_t\<close>)\<close>

text \<open>
  \<^verbatim>\<open>crypto_digest\<close> returns \<^verbatim>\<open>SHA1(...) == NULL\<close>, which is 0. An incremental context
  (\<^verbatim>\<open>SHA_CTX\<close>) is the sequence of bytes absorbed so far: \<^verbatim>\<open>SHA1_Update\<close> appends,
  \<^verbatim>\<open>SHA1_Final\<close> hashes the whole sequence.
\<close>

definition crypto_digest :: "byte list \<Rightarrow> int \<times> byte list" where
  "crypto_digest m = (0, SHA1 m)"

record crypto_digest_env =
  d :: "byte list"

definition crypto_new_digest_env :: crypto_digest_env where
  "crypto_new_digest_env = \<lparr>d = []\<rparr>"

definition crypto_digest_add_bytes ::
  "crypto_digest_env \<Rightarrow> byte list \<Rightarrow> nat \<Rightarrow> crypto_err + crypto_digest_env" where
  "crypto_digest_add_bytes digest data len =
     (if length data < len then Inl Undefined
      else Inr (digest\<lparr>d := d digest @ take len data\<rparr>))"

definition crypto_digest_get_digest ::
  "crypto_digest_env \<Rightarrow> nat \<Rightarrow> crypto_err + byte list" where
  "crypto_digest_get_digest digest out_len =
     (if \<not> out_len \<le> DIGEST_LEN then Inl Assert
      else Inr (take out_len (SHA1 (d digest))))"

section \<open>Key expansion (\<^verbatim>\<open>crypto_expand_key_material\<close>)\<close>

function expand_key_loop ::
  "byte list \<Rightarrow> nat \<Rightarrow> nat \<Rightarrow> nat \<Rightarrow> byte list \<Rightarrow> crypto_err + byte list" where
  "expand_key_loop key_in key_out_len i cp key_out =
     (if cp < key_out_len then
        (case crypto_digest (key_in @ [of_nat i]) of (r, digest) \<Rightarrow>
           if r \<noteq> 0 then Inl Err
           else expand_key_loop key_in key_out_len (i + 1) (cp + DIGEST_LEN)
                  (key_out @ take (min DIGEST_LEN (key_out_len - cp)) digest))
      else Inr key_out)"
  by pat_completeness auto
termination
  by (relation "measure (\<lambda>(key_in, key_out_len, i, cp, key_out). key_out_len - cp)")
    (auto simp: DIGEST_LEN_def)

declare expand_key_loop.simps [simp del]

definition crypto_expand_key_material :: "byte list \<Rightarrow> nat \<Rightarrow> crypto_err + byte list" where
  "crypto_expand_key_material key_in key_out_len =
     (if \<not> key_out_len \<le> DIGEST_LEN * 256 then Inl Assert
      else expand_key_loop key_in key_out_len 0 0 [])"

section \<open>Iterated and salted S2K (\<^verbatim>\<open>secret_to_key\<close>)\<close>

text \<open>
  The iteration count: \<^verbatim>\<open>((uint32_t)16 + (c & 15)) << ((c >> 4) + EXPBIAS)\<close> with
  \<^verbatim>\<open>EXPBIAS = 6\<close>, computed in 32 bits from the \<^verbatim>\<open>uint8_t c\<close> and stored in a \<^verbatim>\<open>size_t\<close>.
\<close>

definition s2k_count :: "byte \<Rightarrow> nat" where
  "s2k_count c = unat (push_bit (unat (drop_bit 4 c) + 6) ((16 :: u32) + ucast (c AND 15)))"

text \<open>
  The loop \<^verbatim>\<open>while (count)\<close> over the digest context \<open>digest\<close>, the buffer \<^verbatim>\<open>tmp\<close>
  (salt, then secret) and its length, called \<^verbatim>\<open>secret_len\<close> after the source's
  \<^verbatim>\<open>secret_len += 8\<close>. With a length of 0 the loop would not end, which is the value
  \<open>None\<close>.
\<close>

partial_function (option) s2k_loop ::
  "crypto_digest_env \<Rightarrow> byte list \<Rightarrow> nat \<Rightarrow> nat \<Rightarrow> (crypto_err + crypto_digest_env) option" where
  "s2k_loop digest tmp secret_len count =
     (if count = 0 then Some (Inr digest)
      else if count \<ge> secret_len then
        (case crypto_digest_add_bytes digest tmp secret_len of
           Inl e \<Rightarrow> Some (Inl e)
         | Inr digest' \<Rightarrow> s2k_loop digest' tmp secret_len (count - secret_len))
      else
        (case crypto_digest_add_bytes digest tmp count of
           Inl e \<Rightarrow> Some (Inl e)
         | Inr digest' \<Rightarrow> s2k_loop digest' tmp secret_len 0))"

text \<open>
  The whole function; it returns \<^verbatim>\<open>void\<close>, and the result is the bytes written to
  \<^verbatim>\<open>key_out\<close>. \<^verbatim>\<open>SIZE_T_CEILING\<close> is the parameter \<open>ceiling\<close>. The specifier is read up
  to its ninth byte. \<^verbatim>\<open>tmplen = 8+secret_len\<close> is computed in \<^verbatim>\<open>size_t\<close>; had it wrapped
  around, the two \<^verbatim>\<open>memcpy\<close> would leave the allocation.
\<close>

definition secret_to_key ::
  "nat \<Rightarrow> nat \<Rightarrow> byte list \<Rightarrow> byte list \<Rightarrow> (crypto_err + byte list) option" where
  "secret_to_key ceiling key_out_len secret s2k_specifier =
     (if \<not> key_out_len < ceiling then Some (Inl Assert)
      else if length s2k_specifier < 9 then Some (Inl Undefined)
      else if \<not> key_out_len \<le> DIGEST_LEN then Some (Inl Assert)
      else if size_t_of (8 + length secret) \<noteq> 8 + length secret then Some (Inl Undefined)
      else
        (case s2k_loop crypto_new_digest_env (take 8 s2k_specifier @ secret)
                (size_t_of (8 + length secret)) (s2k_count (s2k_specifier ! 8)) of
           None \<Rightarrow> None
         | Some (Inl e) \<Rightarrow> Some (Inl e)
         | Some (Inr digest) \<Rightarrow>
             (case crypto_digest_get_digest digest key_out_len of
                Inl e \<Rightarrow> Some (Inl e)
              | Inr key_out \<Rightarrow> Some (Inr key_out))))"

text \<open>
  The description to compare with: the count without a word size, and the first
  \<open>count\<close> bytes of the endless repetition of salt and secret (\<open>count\<close> copies are
  enough, the salt being 8 bytes).
\<close>

definition s2k_count_spec :: "byte \<Rightarrow> nat" where
  "s2k_count_spec c = push_bit (drop_bit 4 (unat c) + 6) (16 + (unat c AND 15))"

definition s2k_input :: "byte list \<Rightarrow> byte list \<Rightarrow> nat \<Rightarrow> byte list" where
  "s2k_input salt secret count = take count (concat (replicate count (salt @ secret)))"

section \<open>Diffie-Hellman\<close>

text \<open>The modulus that \<^verbatim>\<open>init_dh_param\<close> parses with \<^verbatim>\<open>BN_hex2bn\<close>, and the generator.\<close>

definition dh_param_p :: int where
  "dh_param_p = 0xFFFFFFFFFFFFFFFFC90FDAA22168C234C4C6628B80DC1CD129024E088A67CC74020BBEA63B139B22514A08798E3404DDEF9519B3CD3A431B302B0A6DF25F14374FE1356D6D51C245E485B576625E7EC6F44C42E9A637ED6B0BFF5CB6F406B7EDEE386BFB5A899FA5AE9F24117C4B1FE649286651ECE65381FFFFFFFFFFFFFFFF"

definition dh_param_g :: int where
  "dh_param_g = 2"

definition DH_PRIVATE_KEY_BITS :: nat where
  "DH_PRIVATE_KEY_BITS = 320"

record DH =
  dh_p :: int
  dh_g :: int
  dh_length :: nat
  dh_pub_key :: "int option"
  dh_priv_key :: "int option"

record crypto_dh_env =
  dh :: DH

definition crypto_dh_new :: crypto_dh_env where
  "crypto_dh_new =
     \<lparr>dh = \<lparr>dh_p = dh_param_p, dh_g = dh_param_g, dh_length = DH_PRIVATE_KEY_BITS,
             dh_pub_key = None, dh_priv_key = None\<rparr>\<rparr>"

text \<open>
  \<^verbatim>\<open>tor_check_dh_key\<close>: a \<^verbatim>\<open>BIGNUM\<close> is a signed integer. First \<^verbatim>\<open>BN_cmp(bn, 1) <= 0\<close>,
  then \<^verbatim>\<open>BN_cmp(bn, p - 1) >= 0\<close>; either one rejects with \<^verbatim>\<open>-1\<close>.
\<close>

definition tor_check_dh_key :: "int \<Rightarrow> int" where
  "tor_check_dh_key bn =
     (if bn \<le> 1 then - 1
      else if bn \<ge> dh_param_p - 1 then - 1
      else 0)"

text \<open>\<^verbatim>\<open>BN_bin2bn\<close>: the unsigned big-endian value of a byte string.\<close>

definition BN_bin2bn :: "byte list \<Rightarrow> int" where
  "BN_bin2bn bs = foldl (\<lambda>acc b. acc * 256 + uint b) 0 bs"

text \<open>
  \<^verbatim>\<open>crypto_dh_generate_public\<close>: OpenSSL's \<^verbatim>\<open>DH_generate_key\<close> is a parameter, given as
  the outcomes of its successive calls (\<open>None\<close>: the call failed, \<open>Some (x, gx)\<close>: the
  pair it produced). The \<^verbatim>\<open>goto again\<close> loop is the recursion; the result is \<open>None\<close>
  when the loop is still running after the outcomes supplied.
\<close>

fun crypto_dh_generate_public ::
  "(int \<times> int) option list \<Rightarrow> crypto_dh_env \<Rightarrow> (crypto_err + crypto_dh_env) option" where
  "crypto_dh_generate_public [] env = None"
| "crypto_dh_generate_public (None # rest) env = Some (Inl Err)"
| "crypto_dh_generate_public (Some (x, gx) # rest) env =
     (if tor_check_dh_key gx < 0
      then crypto_dh_generate_public rest
             (env\<lparr>dh := (dh env)\<lparr>dh_pub_key := None, dh_priv_key := None\<rparr>\<rparr>)
      else Some (Inr (env\<lparr>dh := (dh env)\<lparr>dh_pub_key := Some gx, dh_priv_key := Some x\<rparr>\<rparr>)))"

text \<open>
  \<^verbatim>\<open>crypto_dh_compute_secret\<close>: OpenSSL's \<^verbatim>\<open>DH_compute_key\<close> is a parameter; it returns
  its result code and the bytes it wrote.
\<close>

definition crypto_dh_compute_secret ::
  "(int \<Rightarrow> DH \<Rightarrow> int \<times> byte list) \<Rightarrow> crypto_dh_env \<Rightarrow> byte list \<Rightarrow> nat
     \<Rightarrow> crypto_err + (int \<times> byte list)" where
  "crypto_dh_compute_secret DH_compute_key env pubkey secret_bytes_out =
     (if \<not> secret_bytes_out div DIGEST_LEN \<le> 255 then Inl Assert
      else if \<not> length pubkey < INT_MAX then Inl Assert
      else if tor_check_dh_key (BN_bin2bn pubkey) < 0 then Inl Err
      else
        (case DH_compute_key (BN_bin2bn pubkey) (dh env) of (result, secret_tmp) \<Rightarrow>
           if result < 0 then Inl Err
           else
             (case crypto_expand_key_material (take (nat result) secret_tmp) secret_bytes_out of
                Inl e \<Rightarrow> Inl e
              | Inr secret_out \<Rightarrow> Inr (int secret_bytes_out, secret_out))))"

section \<open>Random integers (\<^verbatim>\<open>crypto_rand_int\<close>)\<close>

text \<open>
  \<^verbatim>\<open>crypto_rand\<close> fills the \<^verbatim>\<open>unsigned int val\<close> from OpenSSL's \<^verbatim>\<open>RAND_bytes\<close>, and
  \<^verbatim>\<open>crypto_rand_int\<close> does not look at what it returns. The generator is the parameter
  \<open>draws\<close>: \<open>draws k\<close> is the value \<^verbatim>\<open>val\<close> holds after call number \<open>k\<close>. The two
  assertions of \<^verbatim>\<open>crypto_rand\<close> hold at this call (\<open>n = 4\<close>, a non-null pointer).

  The loop \<^verbatim>\<open>while (1)\<close> ends at the first draw below \<open>cutoff\<close>; \<open>None\<close> is a loop that
  never ends. All of \<open>val\<close>, \<open>cutoff\<close> and \<open>max\<close> are \<^verbatim>\<open>unsigned int\<close>.
\<close>

definition UINT_MAX :: u32 where
  "UINT_MAX = 0xFFFFFFFF"

partial_function (option) crypto_rand_int_loop ::
  "(nat \<Rightarrow> u32) \<Rightarrow> u32 \<Rightarrow> u32 \<Rightarrow> nat \<Rightarrow> u32 option" where
  "crypto_rand_int_loop draws max' cutoff k =
     (if draws k < cutoff then Some (draws k mod max')
      else crypto_rand_int_loop draws max' cutoff (k + 1))"

text \<open>
  The function returns \<^verbatim>\<open>int\<close>: the \<^verbatim>\<open>unsigned int\<close> value \<^verbatim>\<open>val % max\<close> is converted,
  and a value from \<open>2 ^ 31\<close> on becomes negative (the conversion keeps the 32 bits, as
  gcc and clang define it).
\<close>

definition crypto_rand_int :: "(nat \<Rightarrow> u32) \<Rightarrow> u32 \<Rightarrow> (crypto_err + int) option" where
  "crypto_rand_int draws max' =
     (if \<not> max' < UINT_MAX then Some (Inl Assert)
      else if \<not> max' > 0 then Some (Inl Assert)
      else
        (case crypto_rand_int_loop draws max' (UINT_MAX - UINT_MAX mod max') 0 of
           None \<Rightarrow> None
         | Some v \<Rightarrow> Some (Inr (sint v))))"

section \<open>Global initialisation (\<^verbatim>\<open>crypto_global_init\<close>)\<close>

text \<open>
  The state is the flag \<^verbatim>\<open>_crypto_global_initialized\<close> and, to speak about what a call
  did and in which order, the trace of its effects. What \<^verbatim>\<open>ENGINE_register_all_complete\<close>
  and \<^verbatim>\<open>crypto_seed_rng(1)\<close> return belongs to the environment and is a parameter.
\<close>

datatype init_event =
    LoadCryptoStrings | AddAllAlgorithms | SetInitialized | SetupThreading
  | LoadBuiltinEngines | RegisterAllComplete | LogEngines | SeedRng

record crypto_global =
  crypto_global_initialized :: bool
  events :: "init_event list"

definition do_event :: "init_event \<Rightarrow> crypto_global \<Rightarrow> crypto_global" where
  "do_event e g = g\<lparr>events := events g @ [e]\<rparr>"

definition crypto_global_init ::
  "int \<Rightarrow> bool \<Rightarrow> int \<Rightarrow> crypto_global \<Rightarrow> int \<times> crypto_global" where
  "crypto_global_init useAccel register_all_complete seed_rng g =
     (if \<not> crypto_global_initialized g then
        (let g1 = do_event AddAllAlgorithms (do_event LoadCryptoStrings g);
             g2 = do_event SetInitialized (g1\<lparr>crypto_global_initialized := True\<rparr>);
             g3 = do_event SetupThreading g2
         in if useAccel > 0 then
              (let g4 = do_event RegisterAllComplete (do_event LoadBuiltinEngines g3)
               in if \<not> register_all_complete then (- 1, g4)
                  else (seed_rng, do_event SeedRng (do_event LogEngines g4)))
            else (seed_rng, do_event SeedRng g3))
      else (0, g))"

section \<open>Symmetric cipher\<close>

text \<open>
  The AES counter-mode object of \<^verbatim>\<open>aes.c\<close> is not in this file. Its operations are
  parameters, collected in a record: a fresh object, keying, installing a counter block,
  and encrypting a buffer (returning the output and the advanced object).
\<close>

record 'a aes_ops =
  aes_new_cipher :: 'a
  aes_set_key :: "'a \<Rightarrow> byte list \<Rightarrow> nat \<Rightarrow> 'a"
  aes_set_iv :: "'a \<Rightarrow> byte list \<Rightarrow> 'a"
  aes_crypt :: "'a \<Rightarrow> byte list \<Rightarrow> byte list \<times> 'a"

record 'a crypto_cipher_env =
  key :: "byte list"
  cipher :: 'a

definition crypto_new_cipher_env :: "'a aes_ops \<Rightarrow> 'a crypto_cipher_env" where
  "crypto_new_cipher_env ops = \<lparr>key = replicate CIPHER_KEY_LEN 0, cipher = aes_new_cipher ops\<rparr>"

definition crypto_cipher_set_key ::
  "'a crypto_cipher_env \<Rightarrow> byte list \<Rightarrow> crypto_err + 'a crypto_cipher_env" where
  "crypto_cipher_set_key env k =
     (if length k < CIPHER_KEY_LEN then Inl Undefined
      else Inr (env\<lparr>key := take CIPHER_KEY_LEN k\<rparr>))"

definition crypto_cipher_set_iv ::
  "'a aes_ops \<Rightarrow> 'a crypto_cipher_env \<Rightarrow> byte list \<Rightarrow> int \<times> 'a crypto_cipher_env" where
  "crypto_cipher_set_iv ops env iv =
     (0, env\<lparr>cipher := aes_set_iv ops (cipher env) (take CIPHER_IV_LEN iv)\<rparr>)"

definition crypto_cipher_encrypt_init_cipher ::
  "'a aes_ops \<Rightarrow> 'a crypto_cipher_env \<Rightarrow> int \<times> 'a crypto_cipher_env" where
  "crypto_cipher_encrypt_init_cipher ops env =
     (0, env\<lparr>cipher := aes_set_key ops (cipher env) (key env) (CIPHER_KEY_LEN * 8)\<rparr>)"

definition crypto_cipher_decrypt_init_cipher ::
  "'a aes_ops \<Rightarrow> 'a crypto_cipher_env \<Rightarrow> int \<times> 'a crypto_cipher_env" where
  "crypto_cipher_decrypt_init_cipher ops env =
     (0, env\<lparr>cipher := aes_set_key ops (cipher env) (key env) (CIPHER_KEY_LEN * 8)\<rparr>)"

text \<open>\<^verbatim>\<open>crypto_cipher_encrypt\<close> asserts a non-zero length; \<^verbatim>\<open>crypto_cipher_decrypt\<close> does not.\<close>

definition crypto_cipher_encrypt ::
  "'a aes_ops \<Rightarrow> 'a crypto_cipher_env \<Rightarrow> byte list
     \<Rightarrow> crypto_err + (int \<times> byte list \<times> 'a crypto_cipher_env)" where
  "crypto_cipher_encrypt ops env from =
     (if length from = 0 then Inl Assert
      else (case aes_crypt ops (cipher env) from of
              (to, c) \<Rightarrow> Inr (0, to, env\<lparr>cipher := c\<rparr>)))"

definition crypto_cipher_decrypt ::
  "'a aes_ops \<Rightarrow> 'a crypto_cipher_env \<Rightarrow> byte list
     \<Rightarrow> crypto_err + (int \<times> byte list \<times> 'a crypto_cipher_env)" where
  "crypto_cipher_decrypt ops env from =
     (case aes_crypt ops (cipher env) from of
        (to, c) \<Rightarrow> Inr (0, to, env\<lparr>cipher := c\<rparr>))"

text \<open>
  \<^verbatim>\<open>crypto_cipher_decrypt_with_iv\<close>: \<open>tolen\<close> is the capacity of the output buffer. The
  result is the returned length, the bytes written and the cipher afterwards.
\<close>

definition crypto_cipher_decrypt_with_iv ::
  "'a aes_ops \<Rightarrow> 'a crypto_cipher_env \<Rightarrow> nat \<Rightarrow> byte list
     \<Rightarrow> crypto_err + (int \<times> byte list \<times> 'a crypto_cipher_env)" where
  "crypto_cipher_decrypt_with_iv ops env tolen from =
     (if \<not> length from < INT_MAX then Inl Assert
      else if length from \<le> CIPHER_IV_LEN then Inl Err
      else if tolen < length from - CIPHER_IV_LEN then Inl Err
      else
        (case crypto_cipher_set_iv ops env from of (r, env1) \<Rightarrow>
           if r < 0 then Inl Err
           else
             (case crypto_cipher_encrypt ops env1 (drop CIPHER_IV_LEN from) of
                Inl e \<Rightarrow> Inl e
              | Inr (r2, to, env2) \<Rightarrow> Inr (int (length from - CIPHER_IV_LEN), to, env2))))"

text \<open>
  An instance of the AES parameters for concrete evaluations: the object is the pair of
  key and counter block, and a byte is encrypted by XOR with the first key byte and the
  first counter byte. It is its own inverse from equal states, as counter mode is.
\<close>

definition toy_pad :: "byte list \<times> byte list \<Rightarrow> byte" where
  "toy_pad s = (case s of (k, iv) \<Rightarrow> (if k = [] then 0 else hd k) XOR (if iv = [] then 0 else hd iv))"

definition toy_aes :: "(byte list \<times> byte list) aes_ops" where
  "toy_aes =
     \<lparr>aes_new_cipher = ([], []),
      aes_set_key = (\<lambda>s k bits. (take (bits div 8) k, [])),
      aes_set_iv = (\<lambda>s iv. (fst s, iv)),
      aes_crypt = (\<lambda>s data. (map (\<lambda>b. b XOR toy_pad s) data, s))\<rparr>"

section \<open>Fingerprint syntax (\<^verbatim>\<open>crypto_pk_check_fingerprint_syntax\<close>)\<close>

definition FINGERPRINT_LEN :: nat where
  "FINGERPRINT_LEN = 49"

text \<open>
  Modelled from the spec: \<^verbatim>\<open>TOR_ISSPACE\<close> and \<^verbatim>\<open>TOR_ISXDIGIT\<close> are macros of a header
  that is not under \<^verbatim>\<open>src/\<close>. The spec asks for whitespace (TAB, LF, VT, FF, CR, SP where
  it lists them) at every fifth position and for uppercase hexadecimal digits elsewhere.
\<close>

definition TOR_ISSPACE :: "char \<Rightarrow> bool" where
  "TOR_ISSPACE c \<longleftrightarrow> c \<in> set [CHR 0x09, CHR 0x0A, CHR 0x0B, CHR 0x0C, CHR 0x0D, CHR 0x20]"

definition TOR_ISXDIGIT :: "char \<Rightarrow> bool" where
  "TOR_ISXDIGIT c \<longleftrightarrow> c \<in> set ''0123456789ABCDEF''"

text \<open>
  The argument is a NUL-terminated string, given by the characters before its
  terminator: \<open>s[i]\<close> is the terminator at \<open>i = length s\<close>. The loop returns at the
  terminator at the latest, so nothing beyond it is read.
\<close>

definition cstr_at :: "string \<Rightarrow> nat \<Rightarrow> char" where
  "cstr_at s i = (if i < length s then s ! i else CHR 0x00)"

function check_fingerprint_loop :: "string \<Rightarrow> nat \<Rightarrow> int" where
  "check_fingerprint_loop s i =
     (if i < FINGERPRINT_LEN then
        (if i mod 5 = 4 then
           (if \<not> TOR_ISSPACE (cstr_at s i) then 0 else check_fingerprint_loop s (i + 1))
         else
           (if \<not> TOR_ISXDIGIT (cstr_at s i) then 0 else check_fingerprint_loop s (i + 1)))
      else if cstr_at s FINGERPRINT_LEN \<noteq> CHR 0x00 then 0
      else 1)"
  by pat_completeness auto
termination
  by (relation "measure (\<lambda>(s, i). FINGERPRINT_LEN - i)") auto

declare check_fingerprint_loop.simps [simp del]

definition crypto_pk_check_fingerprint_syntax :: "string \<Rightarrow> int" where
  "crypto_pk_check_fingerprint_syntax s = check_fingerprint_loop s 0"

section \<open>Base32 decoding (\<^verbatim>\<open>base32_decode\<close>)\<close>

text \<open>
  The counters \<^verbatim>\<open>i\<close>, \<^verbatim>\<open>j\<close> and \<^verbatim>\<open>bit\<close> are \<^verbatim>\<open>unsigned int\<close>: 32-bit words that wrap
  around, compared with the 64-bit sizes \<^verbatim>\<open>srclen\<close> and \<^verbatim>\<open>nbits\<close> by their value. A
  wrapped counter never reaches a bound of \<open>2 ^ 32\<close> or more, so the two loops are partial
  functions: \<open>None\<close> is a loop that never ends.

  The first loop maps every input character to its 5-bit value in \<^verbatim>\<open>tmp\<close> and returns
  \<open>-1\<close> at the first character none of its three branches takes. \<^verbatim>\<open>src[j]\<close> is a
  \<^verbatim>\<open>char\<close>, compared as a signed value here; an unsigned \<^verbatim>\<open>char\<close> takes the same
  branches, since bytes from \<open>0x80\<close> on fail all three tests either way. \<^verbatim>\<open>tmp\<close> has
  \<^verbatim>\<open>srclen\<close> bytes, so \<^verbatim>\<open>tmp[j]\<close> with \<open>j < srclen\<close> is inside it.
\<close>

partial_function (option) base32_chars ::
  "byte list \<Rightarrow> u32 \<Rightarrow> byte list \<Rightarrow> (crypto_err + byte list) option" where
  "base32_chars src j tmp =
     (if unat j < length src then
        (if 0x60 < sint (src ! unat j) \<and> sint (src ! unat j) < 0x7B then
           base32_chars src (j + 1) (tmp[unat j := src ! unat j - 0x61])
         else if 0x31 < sint (src ! unat j) \<and> sint (src ! unat j) < 0x38 then
           base32_chars src (j + 1) (tmp[unat j := src ! unat j - 0x18])
         else if 0x40 < sint (src ! unat j) \<and> sint (src ! unat j) < 0x5B then
           base32_chars src (j + 1) (tmp[unat j := src ! unat j - 0x41])
         else Some (Inl Err))
      else Some (Inr tmp))"

text \<open>A read of \<^verbatim>\<open>tmp[k]\<close>, as \<^verbatim>\<open>(uint8_t)tmp[k]\<close> promoted to \<^verbatim>\<open>int\<close>.\<close>

definition tmp_at :: "byte list \<Rightarrow> nat \<Rightarrow> crypto_err + nat" where
  "tmp_at tmp k = (if k < length tmp then Inr (unat (tmp ! k)) else Inl Undefined)"

definition tmp_at2 :: "byte list \<Rightarrow> nat \<Rightarrow> (nat \<Rightarrow> nat \<Rightarrow> nat) \<Rightarrow> crypto_err + byte" where
  "tmp_at2 tmp k f =
     (case tmp_at tmp k of Inl e \<Rightarrow> Inl e
      | Inr a \<Rightarrow> (case tmp_at tmp (k + 1) of Inl e \<Rightarrow> Inl e
          | Inr b \<Rightarrow> Inr (of_nat (f a b))))"

definition tmp_at3 :: "byte list \<Rightarrow> nat \<Rightarrow> (nat \<Rightarrow> nat \<Rightarrow> nat \<Rightarrow> nat) \<Rightarrow> crypto_err + byte" where
  "tmp_at3 tmp k f =
     (case tmp_at tmp k of Inl e \<Rightarrow> Inl e
      | Inr a \<Rightarrow> (case tmp_at tmp (k + 1) of Inl e \<Rightarrow> Inl e
          | Inr b \<Rightarrow> (case tmp_at tmp (k + 2) of Inl e \<Rightarrow> Inl e
              | Inr c \<Rightarrow> Inr (of_nat (f a b c)))))"

text \<open>
  The \<^verbatim>\<open>switch (bit % 40)\<close>: the sum is computed in \<^verbatim>\<open>int\<close> and stored into a
  \<^verbatim>\<open>char\<close>, keeping its low eight bits. No case is taken when \<open>bitpos mod 40\<close> is not a
  multiple of 8; the byte would then stay as it was in the caller's buffer. \<open>bitpos\<close> is
  the value of the 32-bit counter, so the indices \<^verbatim>\<open>(bit/5)+1\<close> and \<^verbatim>\<open>(bit/5)+2\<close> do
  not wrap.
\<close>

definition base32_byte :: "byte list \<Rightarrow> nat \<Rightarrow> crypto_err + byte" where
  "base32_byte tmp bitpos =
     (if bitpos mod 40 = 0 then tmp_at2 tmp (bitpos div 5) (\<lambda>a b. a * 8 + b div 4)
      else if bitpos mod 40 = 8 then tmp_at3 tmp (bitpos div 5) (\<lambda>a b c. a * 64 + b * 2 + c div 16)
      else if bitpos mod 40 = 16 then tmp_at2 tmp (bitpos div 5) (\<lambda>a b. a * 16 + b div 2)
      else if bitpos mod 40 = 24 then tmp_at3 tmp (bitpos div 5) (\<lambda>a b c. a * 128 + b * 4 + c div 8)
      else if bitpos mod 40 = 32 then tmp_at2 tmp (bitpos div 5) (\<lambda>a b. a * 32 + b)
      else Inl Undefined)"

text \<open>
  The write \<^verbatim>\<open>dest[i] = b\<close> into the bytes written so far: the loop writes in index
  order, so \<open>i\<close> is the number of bytes written until \<open>i\<close> wraps around, and an earlier
  byte is overwritten after that.
\<close>

definition dest_write :: "byte list \<Rightarrow> nat \<Rightarrow> byte \<Rightarrow> byte list" where
  "dest_write dest i b = (if i < length dest then dest[i := b] else dest @ [b])"

text \<open>
  The second loop, with the capacity \<open>destlen\<close> of the output buffer: a write at an
  index from \<open>destlen\<close> on is \<open>Inl Undefined\<close>.
\<close>

partial_function (option) base32_assemble ::
  "byte list \<Rightarrow> nat \<Rightarrow> nat \<Rightarrow> u32 \<Rightarrow> u32 \<Rightarrow> byte list \<Rightarrow> (crypto_err + byte list) option" where
  "base32_assemble tmp nbits destlen i bitpos dest =
     (if unat bitpos < nbits then
        (case base32_byte tmp (unat bitpos) of
           Inl e \<Rightarrow> Some (Inl e)
         | Inr b \<Rightarrow>
             if destlen \<le> unat i then Some (Inl Undefined)
             else base32_assemble tmp nbits destlen (i + 1) (bitpos + 8)
                    (dest_write dest (unat i) b))
      else Some (Inr dest))"

text \<open>
  \<^verbatim>\<open>SIZE_T_CEILING\<close> is a macro of a header that is not under \<^verbatim>\<open>src/\<close>; it is the
  parameter \<open>ceiling\<close>. \<^verbatim>\<open>nbits = srclen * 5\<close> is computed in \<^verbatim>\<open>size_t\<close> and wraps
  around. \<^verbatim>\<open>tmp\<close> comes from \<^verbatim>\<open>tor_malloc_zero(srclen)\<close>. The result is \<open>None\<close> when a
  loop never ends, and otherwise the return value and the bytes written.
\<close>

definition base32_decode ::
  "nat \<Rightarrow> nat \<Rightarrow> byte list \<Rightarrow> (crypto_err + (int \<times> byte list)) option" where
  "base32_decode ceiling destlen src =
     (if size_t_of (length src * 5) mod 8 \<noteq> 0 then Some (Inl Assert)
      else if \<not> size_t_of (length src * 5) div 8 \<le> destlen then Some (Inl Assert)
      else if \<not> destlen < ceiling then Some (Inl Assert)
      else
        (case base32_chars src 0 (replicate (length src) 0) of
           None \<Rightarrow> None
         | Some (Inl e) \<Rightarrow> Some (Inl e)
         | Some (Inr tmp) \<Rightarrow>
             (case base32_assemble tmp (size_t_of (length src * 5)) destlen 0 0 [] of
                None \<Rightarrow> None
              | Some (Inl e) \<Rightarrow> Some (Inl e)
              | Some (Inr dest) \<Rightarrow> Some (Inr (0, dest)))))"

text \<open>
  The characters the first loop takes: \<open>a\<close> to \<open>z\<close>, \<open>2\<close> to \<open>7\<close>, and \<open>A\<close> to \<open>Z\<close>.
\<close>

definition base32_lower :: "byte \<Rightarrow> bool" where
  "base32_lower c \<longleftrightarrow> c \<in> set (bytes_of ''abcdefghijklmnopqrstuvwxyz234567'')"

definition base32_upper :: "byte \<Rightarrow> bool" where
  "base32_upper c \<longleftrightarrow> c \<in> set (bytes_of ''ABCDEFGHIJKLMNOPQRSTUVWXYZ'')"

section \<open>Base64 decoding (\<^verbatim>\<open>base64_decode\<close>)\<close>

text \<open>
  The table \<^verbatim>\<open>base64_decode_table\<close>, row by row as the source lays it out: \<open>X = 255\<close>
  marks a byte that may not appear, \<open>SP = 64\<close> a byte to skip, \<open>PAD = 65\<close> the end of
  the data.
\<close>

definition b64_X :: byte where
  "b64_X = 255"

definition b64_SP :: byte where
  "b64_SP = 64"

definition b64_PAD :: byte where
  "b64_PAD = 65"

definition base64_decode_table :: "byte list" where
  "base64_decode_table =
       [b64_X, b64_X, b64_X, b64_X, b64_X, b64_X, b64_X, b64_X, b64_X, b64_SP, b64_SP, b64_SP, b64_X, b64_SP, b64_X, b64_X]
     @ [b64_X, b64_X, b64_X, b64_X, b64_X, b64_X, b64_X, b64_X, b64_X, b64_X, b64_X, b64_X, b64_X, b64_X, b64_X, b64_X]
     @ [b64_SP, b64_X, b64_X, b64_X, b64_X, b64_X, b64_X, b64_X, b64_X, b64_X, b64_X, 62, b64_X, b64_X, b64_X, 63]
     @ [52, 53, 54, 55, 56, 57, 58, 59, 60, 61, b64_X, b64_X, b64_X, b64_PAD, b64_X, b64_X]
     @ [b64_X, 0, 1, 2, 3, 4, 5, 6, 7, 8, 9, 10, 11, 12, 13, 14]
     @ [15, 16, 17, 18, 19, 20, 21, 22, 23, 24, 25, b64_X, b64_X, b64_X, b64_X, b64_X]
     @ [b64_X, 26, 27, 28, 29, 30, 31, 32, 33, 34, 35, 36, 37, 38, 39, 40]
     @ [41, 42, 43, 44, 45, 46, 47, 48, 49, 50, 51, b64_X, b64_X, b64_X, b64_X, b64_X]
     @ [b64_X, b64_X, b64_X, b64_X, b64_X, b64_X, b64_X, b64_X, b64_X, b64_X, b64_X, b64_X, b64_X, b64_X, b64_X, b64_X]
     @ [b64_X, b64_X, b64_X, b64_X, b64_X, b64_X, b64_X, b64_X, b64_X, b64_X, b64_X, b64_X, b64_X, b64_X, b64_X, b64_X]
     @ [b64_X, b64_X, b64_X, b64_X, b64_X, b64_X, b64_X, b64_X, b64_X, b64_X, b64_X, b64_X, b64_X, b64_X, b64_X, b64_X]
     @ [b64_X, b64_X, b64_X, b64_X, b64_X, b64_X, b64_X, b64_X, b64_X, b64_X, b64_X, b64_X, b64_X, b64_X, b64_X, b64_X]
     @ [b64_X, b64_X, b64_X, b64_X, b64_X, b64_X, b64_X, b64_X, b64_X, b64_X, b64_X, b64_X, b64_X, b64_X, b64_X, b64_X]
     @ [b64_X, b64_X, b64_X, b64_X, b64_X, b64_X, b64_X, b64_X, b64_X, b64_X, b64_X, b64_X, b64_X, b64_X, b64_X, b64_X]
     @ [b64_X, b64_X, b64_X, b64_X, b64_X, b64_X, b64_X, b64_X, b64_X, b64_X, b64_X, b64_X, b64_X, b64_X, b64_X, b64_X]
     @ [b64_X, b64_X, b64_X, b64_X, b64_X, b64_X, b64_X, b64_X, b64_X, b64_X, b64_X, b64_X, b64_X, b64_X, b64_X, b64_X]"

text \<open>An \<^verbatim>\<open>unsigned char\<close> indexes the 256 entries, so the lookup is always in range.\<close>

definition base64_table_at :: "byte \<Rightarrow> byte" where
  "base64_table_at c = base64_decode_table ! unat c"

text \<open>
  The function has two bodies; the one under \<^verbatim>\<open>#ifdef USE_OPENSSL_BASE64\<close> is not
  modelled: nothing under \<^verbatim>\<open>src/\<close> defines that macro, so the build is taken to compile
  the \<^verbatim>\<open>#else\<close> body, which is the one below.

  The loop over the input, with the capacity \<open>destlen\<close> of the output buffer, the
  accumulator \<open>n\<close> (a \<^verbatim>\<open>uint32_t\<close>), the count \<open>n_idx\<close> of 6-bit values in it (0 to 3)
  and the bytes written so far. It ends at the end of the input or at
  \<^verbatim>\<open>goto end_of_loop\<close>. The code writes through \<^verbatim>\<open>dest++\<close> without a check of its own;
  a write past the capacity is \<open>Inl Undefined\<close>.
\<close>

fun base64_loop ::
  "nat \<Rightarrow> byte list \<Rightarrow> u32 \<Rightarrow> nat \<Rightarrow> byte list \<Rightarrow> crypto_err + (u32 \<times> nat \<times> byte list)" where
  "base64_loop destlen [] n n_idx dest = Inr (n, n_idx, dest)"
| "base64_loop destlen (c # src) n n_idx dest =
     (if base64_table_at c = b64_X then Inl Err
      else if base64_table_at c = b64_SP then base64_loop destlen src n n_idx dest
      else if base64_table_at c = b64_PAD then Inr (n, n_idx, dest)
      else if n_idx + 1 = 4 then
        (if destlen < length dest + 3 then Inl Undefined
         else base64_loop destlen src 0 0
          (dest @ [ucast (drop_bit 16 (push_bit 6 n OR ucast (base64_table_at c))),
                   ucast (drop_bit 8 (push_bit 6 n OR ucast (base64_table_at c)) AND 0xff),
                   ucast ((push_bit 6 n OR ucast (base64_table_at c)) AND 0xff)]))
      else base64_loop destlen src (push_bit 6 n OR ucast (base64_table_at c)) (n_idx + 1) dest)"

text \<open>The \<^verbatim>\<open>switch (n_idx)\<close> after the loop.\<close>

definition base64_leftover :: "nat \<Rightarrow> u32 \<Rightarrow> nat \<Rightarrow> byte list \<Rightarrow> crypto_err + byte list" where
  "base64_leftover destlen n n_idx dest =
     (if n_idx = 1 then Inl Err
      else if n_idx = 2 then
        (if destlen < length dest + 1 then Inl Undefined
         else Inr (dest @ [ucast (drop_bit 4 n)]))
      else if n_idx = 3 then
        (if destlen < length dest + 2 then Inl Undefined
         else Inr (dest @ [ucast (drop_bit 10 n), ucast (drop_bit 2 n)]))
      else Inr dest)"

text \<open>
  The whole function. \<^verbatim>\<open>SIZE_T_CEILING\<close> is a macro of a header that is not under
  \<^verbatim>\<open>src/\<close>; it is the parameter \<open>ceiling\<close>. The product \<^verbatim>\<open>srclen*3\<close> is computed in
  \<^verbatim>\<open>size_t\<close> and wraps around. The two closing assertions compare the pointer
  difference \<^verbatim>\<open>dest-dest_orig\<close>, a signed 64-bit number, with \<^verbatim>\<open>(ssize_t)destlen\<close>, which
  is negative from \<open>2 ^ 63\<close> on, and with \<^verbatim>\<open>INT_MAX\<close>; a difference that the signed type
  cannot hold is \<open>Inl Undefined\<close>. The result is the return value and the bytes written.
\<close>

definition base64_decode ::
  "nat \<Rightarrow> nat \<Rightarrow> byte list \<Rightarrow> crypto_err + (int \<times> byte list)" where
  "base64_decode ceiling destlen src =
     (if destlen < size_t_of (length src * 3) div 4 then Inl Err
      else if destlen > ceiling then Inl Err
      else
        (case base64_loop destlen src 0 0 [] of
           Inl e \<Rightarrow> Inl e
         | Inr (n, n_idx, dest) \<Rightarrow>
             (case base64_leftover destlen n n_idx dest of
                Inl e \<Rightarrow> Inl e
              | Inr dest' \<Rightarrow>
                  if 2 ^ 63 \<le> length dest' then Inl Undefined
                  else if \<not> int (length dest') \<le> ssize_t_of destlen then Inl Assert
                  else if \<not> int (length dest') \<le> int INT_MAX then Inl Assert
                  else Inr (int (length dest'), dest'))))"

text \<open>
  The decoder in the words of its description, to compare the code with. The data ends at
  the first \<open>=\<close>; TAB, LF, VT, CR and SP are dropped; any other byte outside the alphabet
  is an error; four 6-bit values give three bytes, and a rest of two or three values gives
  one or two bytes taken from the top of their bits.
\<close>

definition b64_alphabet :: string where
  "b64_alphabet = ''ABCDEFGHIJKLMNOPQRSTUVWXYZabcdefghijklmnopqrstuvwxyz0123456789+/''"

fun index_of :: "'a list \<Rightarrow> 'a \<Rightarrow> nat \<Rightarrow> nat option" where
  "index_of [] x i = None"
| "index_of (y # ys) x i = (if x = y then Some i else index_of ys x (i + 1))"

text \<open>The 6-bit value of a byte: the position of its character in the alphabet.\<close>

definition b64_value :: "byte \<Rightarrow> byte option" where
  "b64_value c = map_option of_nat (index_of (map of_char b64_alphabet) (unat c) 0)"

definition b64_space :: "byte \<Rightarrow> bool" where
  "b64_space c \<longleftrightarrow> unat c \<in> set [0x09, 0x0A, 0x0B, 0x0D, 0x20]"

definition b64_data :: "byte list \<Rightarrow> byte list" where
  "b64_data src = filter (\<lambda>c. \<not> b64_space c) (takeWhile (\<lambda>c. c \<noteq> 0x3D) src)"

definition b64_pack :: "byte list \<Rightarrow> u32" where
  "b64_pack vs = foldl (\<lambda>n v. push_bit 6 n OR ucast v) 0 vs"

fun b64_bytes :: "byte list \<Rightarrow> crypto_err + byte list" where
  "b64_bytes (v0 # v1 # v2 # v3 # vs) =
     (case b64_bytes vs of
        Inl e \<Rightarrow> Inl e
      | Inr bs \<Rightarrow> Inr ([ucast (drop_bit 16 (b64_pack [v0, v1, v2, v3])),
                        ucast (drop_bit 8 (b64_pack [v0, v1, v2, v3]) AND 0xff),
                        ucast (b64_pack [v0, v1, v2, v3] AND 0xff)] @ bs))"
| "b64_bytes [v0, v1, v2] =
     Inr [ucast (drop_bit 10 (b64_pack [v0, v1, v2])), ucast (drop_bit 2 (b64_pack [v0, v1, v2]))]"
| "b64_bytes [v0, v1] = Inr [ucast (drop_bit 4 (b64_pack [v0, v1]))]"
| "b64_bytes [v0] = Inl Err"
| "b64_bytes [] = Inr []"

definition base64_spec :: "byte list \<Rightarrow> crypto_err + byte list" where
  "base64_spec src =
     (if list_ex (\<lambda>c. b64_value c = None) (b64_data src) then Inl Err
      else b64_bytes (map (\<lambda>c. the (b64_value c)) (b64_data src)))"

text \<open>Proof device: a property of every entry of a list together with its index.\<close>

fun indexed_all :: "nat \<Rightarrow> (nat \<Rightarrow> 'a \<Rightarrow> bool) \<Rightarrow> 'a list \<Rightarrow> bool" where
  "indexed_all i Q [] = True"
| "indexed_all i Q (v # vs) = (Q i v \<and> indexed_all (i + 1) Q vs)"

section \<open>Theorems\<close>

subsection \<open>C3: \<^verbatim>\<open>secret_to_key\<close>\<close>

text \<open>The count fits 32 bits, so the word size does not show: it is at most \<open>31 * 2 ^ 21\<close>.\<close>

lemma unat_low_nibble: "unat ((c :: byte) AND 15) = unat c mod 16"
proof -
  have "c AND 15 = take_bit 4 c" by (simp add: take_bit_eq_mask mask_eq_exp_minus_1)
  then have "unat (c AND 15) = take_bit 4 (unat c)" by (simp only: unsigned_take_bit_eq)
  then show ?thesis by (simp only: take_bit_eq_mod) simp
qed

lemma unat_high_nibble: "unat (drop_bit 4 (c :: byte)) = unat c div 16"
  by (simp only: unat_drop_bit_eq) (simp add: drop_bit_eq_div)

lemma unat_ucast_byte: "unat (ucast (w :: byte) :: u32) = unat w"
proof -
  have "unat w < 2 ^ LENGTH(8)" by (rule unsigned_less)
  then have "unat w < 2 ^ 32" by simp
  then have "take_bit 32 (unat w) = unat w" by (rule take_bit_nat_eq_self)
  then show ?thesis by (simp add: unsigned_ucast_eq)
qed

lemma unat_push_bit_u32: "unat (push_bit n (w :: u32)) = (unat w * 2 ^ n) mod 2 ^ 32"
  by (simp only: unsigned_push_bit_eq) (simp add: push_bit_eq_mult take_bit_eq_mod)

lemma s2k_count_spec_eq: "s2k_count_spec c = (16 + unat c mod 16) * 2 ^ (unat c div 16 + 6)"
proof -
  have "unat c AND 15 = take_bit 4 (unat c)" by (simp add: take_bit_eq_mask mask_eq_exp_minus_1)
  then show ?thesis
    by (simp add: s2k_count_spec_def push_bit_eq_mult drop_bit_eq_div take_bit_eq_mod)
qed

lemma s2k_count_eq: "s2k_count c = s2k_count_spec c"
proof -
  have "unat c < 2 ^ LENGTH(8)" by (rule unsigned_less)
  then have hi: "unat c div 16 \<le> 15" by simp
  have lo: "unat c mod 16 \<le> 15" by simp
  have a: "unat ((16 :: u32) + ucast (c AND 15)) = 16 + unat c mod 16"
    using lo by (simp add: unat_word_ariths unat_ucast_byte unat_low_nibble)
  have "(16 + unat c mod 16) * 2 ^ (unat c div 16 + 6) \<le> (16 + 15) * 2 ^ (15 + 6)"
    using lo hi by (intro mult_mono power_increasing) simp_all
  then have small: "(16 + unat c mod 16) * 2 ^ (unat c div 16 + 6) < 2 ^ 32"
    by simp
  have "s2k_count c = ((16 + unat c mod 16) * 2 ^ (unat c div 16 + 6)) mod 2 ^ 32"
    by (simp only: s2k_count_def unat_push_bit_u32 a unat_high_nibble)
  with small show ?thesis
    by (simp only: mod_less s2k_count_spec_eq)
qed

text \<open>The first \<open>n\<close> bytes of a repetition do not depend on how often it repeats.\<close>

lemma take_repeat:
  assumes "xs \<noteq> []" "n \<le> m"
  shows "take n (concat (replicate m xs)) = take n (concat (replicate n xs))"
proof -
  from assms(2) have "replicate m xs = replicate n xs @ replicate (m - n) xs"
    by (simp flip: replicate_add)
  then have c: "concat (replicate m xs) = concat (replicate n xs) @ concat (replicate (m - n) xs)"
    by simp
  from assms(1) have "1 \<le> length xs" by (cases xs) simp_all
  then have "n * 1 \<le> n * length xs" by (rule mult_le_mono2)
  then have "n \<le> length (concat (replicate n xs))"
    by (simp add: length_concat sum_list_replicate)
  with c show ?thesis by simp
qed

lemma take_repeat_step:
  assumes "xs \<noteq> []" "length xs \<le> n"
  shows "take n (concat (replicate n xs))
           = xs @ take (n - length xs) (concat (replicate (n - length xs) xs))"
proof -
  from assms have "0 < n" by (cases xs) auto
  then obtain k where n: "n = Suc k" by (cases n) simp_all
  from assms(1) have "1 \<le> length xs" by (cases xs) simp_all
  with n have le: "n - length xs \<le> k" by simp
  have "take n (concat (replicate n xs)) = take n (xs @ concat (replicate k xs))"
    by (simp add: n)
  also have "\<dots> = xs @ take (n - length xs) (concat (replicate k xs))"
    using assms(2) by simp
  also have "take (n - length xs) (concat (replicate k xs))
      = take (n - length xs) (concat (replicate (n - length xs) xs))"
    using assms(1) le by (rule take_repeat)
  finally show ?thesis .
qed

lemma take_repeat_last:
  assumes "0 < n" "n < length xs"
  shows "take n (concat (replicate n xs)) = take n xs"
proof -
  from assms(1) obtain k where n: "n = Suc k" by (cases n) simp_all
  have "take n (concat (replicate n xs)) = take n (xs @ concat (replicate k xs))"
    by (simp add: n)
  also have "\<dots> = take n xs"
    using assms(2) by simp
  finally show ?thesis .
qed

text \<open>The loop absorbs the first \<open>count\<close> bytes of the repetition of \<^verbatim>\<open>tmp\<close>, and ends.\<close>

lemma s2k_loop_spec:
  assumes "tmp \<noteq> []"
  shows "s2k_loop digest tmp (length tmp) count
           = Some (Inr (digest\<lparr>d := d digest @ take count (concat (replicate count tmp))\<rparr>))"
proof (induction count arbitrary: digest rule: less_induct)
  case (less count)
  from assms have pos: "0 < length tmp" by simp
  show ?case
  proof (cases "count = 0")
    case True
    then show ?thesis
      by (subst s2k_loop.simps) simp
  next
    case nz: False
    show ?thesis
    proof (cases "length tmp \<le> count")
      case True
      with pos nz have "count - length tmp < count" by simp
      from less.IH [OF this] have ih:
        "s2k_loop (digest\<lparr>d := d digest @ tmp\<rparr>) tmp (length tmp) (count - length tmp)
           = Some (Inr (digest\<lparr>d := (d digest @ tmp)
                @ take (count - length tmp) (concat (replicate (count - length tmp) tmp))\<rparr>))"
        by simp
      have "s2k_loop digest tmp (length tmp) count
          = s2k_loop (digest\<lparr>d := d digest @ tmp\<rparr>) tmp (length tmp) (count - length tmp)"
        using nz True by (subst s2k_loop.simps) (simp add: crypto_digest_add_bytes_def)
      with ih show ?thesis
        by (simp add: take_repeat_step [OF assms True])
    next
      case False
      then have lt: "count < length tmp" by simp
      have z: "s2k_loop dg tmp (length tmp) 0 = Some (Inr dg)" for dg
        by (subst s2k_loop.simps) simp
      have "s2k_loop digest tmp (length tmp) count
          = Some (Inr (digest\<lparr>d := d digest @ take count tmp\<rparr>))"
        using nz lt by (subst s2k_loop.simps) (simp add: crypto_digest_add_bytes_def z)
      with nz lt show ?thesis
        by (simp add: take_repeat_last)
    qed
  qed
qed

lemma secret_to_key_spec:
  assumes "key_out_len < ceiling" "9 \<le> length s2k_specifier" "key_out_len \<le> 20"
    and "8 + length secret < 2 ^ 64"
  shows "secret_to_key ceiling key_out_len secret s2k_specifier
         = Some (Inr (take key_out_len (SHA1 (s2k_input (take 8 s2k_specifier) secret
                   (s2k_count_spec (s2k_specifier ! 8))))))"
proof -
  from assms(4) have w: "size_t_of (8 + length secret) = 8 + length secret"
    by (simp add: size_t_of_def)
  from assms(2) have l: "length (take 8 s2k_specifier @ secret) = 8 + length secret"
    by simp
  then have ne: "take 8 s2k_specifier @ secret \<noteq> []" by auto
  from s2k_loop_spec [OF ne, of crypto_new_digest_env "s2k_count_spec (s2k_specifier ! 8)"]
  have "s2k_loop crypto_new_digest_env (take 8 s2k_specifier @ secret) (8 + length secret)
          (s2k_count (s2k_specifier ! 8))
        = Some (Inr (crypto_new_digest_env\<lparr>d := s2k_input (take 8 s2k_specifier) secret
                   (s2k_count_spec (s2k_specifier ! 8))\<rparr>))"
    by (simp only: l s2k_count_eq s2k_input_def) (simp add: crypto_new_digest_env_def)
  with assms(1,2,3) show ?thesis
    by (simp add: secret_to_key_def w crypto_digest_get_digest_def DIGEST_LEN_def)
qed

text \<open>
  SHA-1 of 1024 zero bytes, by rewriting: sixteen all-zero blocks, then the block of the
  padding.
\<close>

lemma add32_eval: "add32 a b = (a + b) AND 4294967295"
proof -
  have "(a + b) mod 2 ^ 32 = (a + b) AND mask 32"
    by (simp only: take_bit_eq_mod [symmetric] take_bit_eq_mask)
  then show ?thesis
    by (simp add: add32_def mask_eq_exp_minus_1)
qed

lemma mod32_eval: "x mod 4294967296 = x AND (4294967295 :: nat)"
  using add32_eval [of x 0] by (simp add: add32_def)

lemma rotl32_1: "rotl32 (numeral Num.One) x = (x * 2 AND 4294967295) + drop_bit 31 x"
  by (simp add: rotl32_def mod32_eval drop_bit_eq_div)

lemma rotl32_5: "rotl32 5 x = (x * 32 AND 4294967295) + drop_bit 27 x"
  by (simp add: rotl32_def mod32_eval drop_bit_eq_div)

lemma rotl32_30: "rotl32 30 x = (x * 1073741824 AND 4294967295) + drop_bit 2 x"
  by (simp add: rotl32_def mod32_eval drop_bit_eq_div)

lemma drop_bit_numeral_One: "drop_bit (numeral l) (numeral Num.One :: nat) = 0"
  by simp

lemmas sha1_eval = sha1_rounds.simps sha1_sched.simps(1) sha1_step.simps sha1_add.simps
  sha1_f_def sha1_k_def not32_def add32_eval rotl32_1 rotl32_5 rotl32_30 sha1_compress_def
  if_True if_False list.sel append.simps prod.inject simp_thms numeral_One [symmetric]
  arith_simps rel_simps numeral_and_num numeral_or_num numeral_xor_num and_num.simps
  or_num.simps xor_num.simps option.case option.map drop_bit_numeral_bit0
  drop_bit_numeral_bit1 drop_bit_numeral_One pred_numeral_simps drop_bit_0 id_apply
  drop_bit_of_0 and_zero_eq zero_and_eq or.left_neutral or.right_neutral xor.left_neutral
  xor.right_neutral mult_zero_left add_0 add_0_right

lemma sha1_words_zeros: "sha1_words (replicate (4 * n) 0 @ bs) = replicate n 0 @ sha1_words bs"
proof (induction n)
  case 0
  then show ?case by simp
next
  case (Suc n)
  have "replicate (4 * Suc n) (0 :: byte) = 0 # 0 # 0 # 0 # replicate (4 * n) 0"
    by (simp add: replicate_add [of 4 "4 * n", simplified] eval_nat_numeral)
  with Suc show ?case by simp
qed

lemma sha1_blocks_zeros:
  assumes "i \<le> n"
  shows "sha1_blocks h (replicate (16 * (n - i)) 0 @ ws) = sha1_blocks (sha1_zero_blocks i n h) ws"
  using assms
proof (induction "n - i" arbitrary: i h)
  case 0
  then show ?case
    by (subst sha1_zero_blocks.simps) simp
next
  case (Suc k)
  then have lt: "i < n" and k: "n - (i + 1) = k" "n - i = Suc k" by simp_all
  have z: "replicate 16 (0 :: nat) = sha1_zero16"
    by (simp add: sha1_zero16_def eval_nat_numeral)
  have "replicate (16 * Suc k) (0 :: nat) = replicate 16 0 @ replicate (16 * k) 0"
    by (simp only: replicate_add [symmetric] mult_Suc_right)
  with z have r: "replicate (16 * Suc k) (0 :: nat) = sha1_zero16 @ replicate (16 * k) 0"
    by (simp only:)
  have "sha1_blocks h (sha1_zero16 @ replicate (16 * k) 0 @ ws)
      = sha1_blocks (sha1_compress h sha1_zero16) (replicate (16 * k) 0 @ ws)"
    by (simp add: sha1_zero16_def)
  also have "\<dots> = sha1_blocks (sha1_zero_blocks (i + 1) n (sha1_compress h sha1_zero16)) ws"
    using Suc.hyps(1) [of "i + 1" "sha1_compress h sha1_zero16"] lt k by simp
  also have "\<dots> = sha1_blocks (sha1_zero_blocks i n h) ws"
    using lt by (subst (2) sha1_zero_blocks.simps) simp
  finally show ?case by (simp only: k r append_assoc)
qed

lemma sha1_zero_16:
  "sha1_zero_blocks 0 16 sha1_init = (3166596414, 3039123945, 438594812, 35621399, 1119710511)"
  by (simp only: sha1_zero_blocks.simps sha1_zero16_def sha1_init_def sha1_eval
      cong: if_weak_cong)

lemma sha1_zero_last:
  "sha1_compress (3166596414, 3039123945, 438594812, 35621399, 1119710511)
     ([2147483648, 0, 0, 0, 0, 0, 0, 0] @ [0, 0, 0, 0, 0, 0, 0, 8192])
   = (1623903219, 3610123896, 874528166, 134445851, 4164632808)"
  by (simp only: sha1_eval cong: if_weak_cong)

lemma sha1_pad_zeros:
  "sha1_pad (replicate 1024 0)
     = replicate (4 * 256) 0 @ (0x80 # 0 # 0 # 0 # replicate (4 * 13) 0 @ be64_bytes 8192)"
proof -
  have "replicate 3 (0 :: byte) @ replicate 52 0 = replicate 55 0"
    by (simp only: replicate_add [symmetric]) simp
  moreover have "replicate 3 (0 :: byte) = [0, 0, 0]"
    by (simp add: numeral_3_eq_3)
  ultimately have "replicate 55 (0 :: byte) = [0, 0, 0] @ replicate 52 0"
    by (simp only:)
  then show ?thesis
    by (simp add: sha1_pad_def)
qed

lemma sha1_words_last: "sha1_words (be64_bytes 8192) = [0, 8192]"
  by (simp add: be64_bytes_def)

lemma sha1_words_pad_zeros:
  "sha1_words (sha1_pad (replicate 1024 0))
     = replicate (16 * (16 - 0)) 0 @ ([2147483648, 0, 0, 0, 0, 0, 0, 0] @ [0, 0, 0, 0, 0, 0, 0, 8192])"
proof -
  have "replicate 13 (0 :: nat) = [0, 0, 0, 0, 0, 0, 0, 0, 0, 0, 0, 0, 0]"
    by (simp add: eval_nat_numeral)
  moreover have "sha1_words (0x80 # 0 # 0 # 0 # replicate (4 * 13) 0 @ be64_bytes 8192)
      = 2147483648 # replicate 13 0 @ [0, 8192]"
    by (simp only: sha1_words.simps(1) sha1_words_zeros sha1_words_last) simp
  ultimately show ?thesis
    by (simp only: sha1_pad_zeros sha1_words_zeros) simp
qed

lemma sha1_1024_zeros:
  "SHA1 (replicate 1024 0)
     = [0x60, 0xca, 0xcb, 0xf3, 0xd7, 0x2e, 0x1e, 0x78, 0x34, 0x20,
        0x3d, 0xa6, 0x08, 0x03, 0x7b, 0x1b, 0xf8, 0x3b, 0x40, 0xe8]"
proof -
  have z: "(0 :: nat) \<le> 16" by simp
  have "sha1_blocks sha1_init (sha1_words (sha1_pad (replicate 1024 0)))
      = sha1_blocks (sha1_zero_blocks 0 16 sha1_init)
          ([2147483648, 0, 0, 0, 0, 0, 0, 0] @ [0, 0, 0, 0, 0, 0, 0, 8192])"
    by (simp only: sha1_words_pad_zeros sha1_blocks_zeros [OF z])
  also have "\<dots> = sha1_compress (3166596414, 3039123945, 438594812, 35621399, 1119710511)
          ([2147483648, 0, 0, 0, 0, 0, 0, 0] @ [0, 0, 0, 0, 0, 0, 0, 8192])"
    by (simp only: sha1_zero_16 append.simps sha1_blocks.simps)
  finally have "sha1_blocks sha1_init (sha1_words (sha1_pad (replicate 1024 0)))
      = (1623903219, 3610123896, 874528166, 134445851, 4164632808)"
    by (simp only: sha1_zero_last)
  then show ?thesis
    by (simp add: SHA1_def be32_bytes_def)
qed

lemma concat_replicate_const: "concat (replicate n (replicate k x)) = replicate (n * k) x"
  by (induction n) (simp_all add: replicate_add)

lemma s2k_input_zeros: "s2k_input (replicate 8 0) [] 1024 = replicate 1024 0"
  by (simp add: s2k_input_def concat_replicate_const)

lemma s2k_input_length: "length (s2k_input (take 8 s2k_specifier) secret n) \<le> n"
  by (simp add: s2k_input_def)

lemma s2k_input_length_salted:
  assumes "8 \<le> length s2k_specifier"
  shows "length (s2k_input (take 8 s2k_specifier) secret n) = n"
proof -
  from assms have "1 \<le> length (take 8 s2k_specifier @ secret)" by simp
  then have "n * 1 \<le> n * length (take 8 s2k_specifier @ secret)" by (rule mult_le_mono2)
  then have "n \<le> length (concat (replicate n (take 8 s2k_specifier @ secret)))"
    by (simp only: length_concat map_replicate sum_list_replicate) simp
  then show ?thesis by (simp add: s2k_input_def)
qed

lemma secret_to_key_zero_vector:
  "secret_to_key (2 ^ 63) 20 [] (replicate 9 0)
     = Some (Inr [0x60, 0xca, 0xcb, 0xf3, 0xd7, 0x2e, 0x1e, 0x78, 0x34, 0x20,
                  0x3d, 0xa6, 0x08, 0x03, 0x7b, 0x1b, 0xf8, 0x3b, 0x40, 0xe8])"
proof -
  have "secret_to_key (2 ^ 63) 20 [] (replicate 9 0)
      = Some (Inr (take 20 (SHA1 (s2k_input (take 8 (replicate 9 0)) []
                   (s2k_count_spec (replicate 9 0 ! 8))))))"
    by (rule secret_to_key_spec) simp_all
  also have "s2k_count_spec (replicate 9 0 ! 8) = 1024"
    by (simp add: s2k_count_spec_eq)
  also have "take 8 (replicate 9 (0 :: byte)) = replicate 8 0"
    by simp
  finally show ?thesis
    by (simp only: s2k_input_zeros sha1_1024_zeros) simp
qed

text \<open>
  C3 (amended). \<^verbatim>\<open>secret_to_key\<close> with a specifier of 8 salt bytes and the count byte
  \<open>c\<close> computes \<open>count = (16 + (c & 15)) << ((c >> 4) + 6)\<close>, absorbs exactly the first
  \<open>count\<close> bytes of the endless repetition of salt and secret into one SHA-1 context, and
  writes the first \<open>key_out_len \<le> 20\<close> bytes of the digest. With an all-zero salt,
  \<open>c = 0\<close> and an empty secret the count is 1024 and the 20 bytes written are SHA-1 of
  1024 zero bytes, which is \<open>60 ca cb f3 d7 2e 1e 78 34 20 3d a6 08 03 7b 1b f8 3b 40 e8\<close>.
\<close>

theorem C3_secret_to_key:
  assumes "key_out_len < ceiling" "9 \<le> length s2k_specifier" "key_out_len \<le> 20"
    and "8 + length secret < 2 ^ 64"
  shows "secret_to_key ceiling key_out_len secret s2k_specifier
           = Some (Inr (take key_out_len (SHA1 (s2k_input (take 8 s2k_specifier) secret
                     (s2k_count_spec (s2k_specifier ! 8))))))
         \<and> length (s2k_input (take 8 s2k_specifier) secret (s2k_count_spec (s2k_specifier ! 8)))
             = s2k_count_spec (s2k_specifier ! 8)
         \<and> s2k_count_spec 0 = 1024
         \<and> s2k_input (replicate 8 0) [] 1024 = replicate 1024 0
         \<and> secret_to_key (2 ^ 63) 20 [] (replicate 9 0)
             = Some (Inr [0x60, 0xca, 0xcb, 0xf3, 0xd7, 0x2e, 0x1e, 0x78, 0x34, 0x20,
                          0x3d, 0xa6, 0x08, 0x03, 0x7b, 0x1b, 0xf8, 0x3b, 0x40, 0xe8])"
proof -
  from assms(2) have "8 \<le> length s2k_specifier" by simp
  then have "length (s2k_input (take 8 s2k_specifier) secret (s2k_count_spec (s2k_specifier ! 8)))
      = s2k_count_spec (s2k_specifier ! 8)"
    by (rule s2k_input_length_salted)
  moreover have "s2k_count_spec 0 = 1024"
    by (simp add: s2k_count_spec_eq)
  moreover note secret_to_key_spec [OF assms] s2k_input_zeros secret_to_key_zero_vector
  ultimately show ?thesis by (simp only: simp_thms)
qed

theorem C3_secret_to_key_witness:
  "(4 :: nat) < 2 ^ 63 \<and> 9 \<le> length (bytes_of ''saltsalt'' @ [0x10]) \<and> (4 :: nat) \<le> 20
   \<and> 8 + length (bytes_of ''pw'') < 2 ^ 64
   \<and> s2k_count_spec 0x10 = 2048
   \<and> secret_to_key (2 ^ 63) 4 (bytes_of ''pw'') (bytes_of ''saltsalt'' @ [0x10])
       = Some (Inr (take 4 (SHA1 (s2k_input (bytes_of ''saltsalt'') (bytes_of ''pw'') 2048))))"
proof -
  have a: "(4 :: nat) < 2 ^ 63" "9 \<le> length (bytes_of ''saltsalt'' @ [0x10])" "(4 :: nat) \<le> 20"
    "8 + length (bytes_of ''pw'') < 2 ^ 64"
    by (simp_all add: bytes_of_def)
  have c: "s2k_count_spec 0x10 = 2048"
    by (simp add: s2k_count_spec_eq)
  have s: "take 8 (bytes_of ''saltsalt'' @ [0x10]) = bytes_of ''saltsalt''"
    "(bytes_of ''saltsalt'' @ [0x10]) ! 8 = 0x10"
    by (simp_all add: bytes_of_def)
  from C3_secret_to_key [OF a] have
    "secret_to_key (2 ^ 63) 4 (bytes_of ''pw'') (bytes_of ''saltsalt'' @ [0x10])
       = Some (Inr (take 4 (SHA1 (s2k_input (bytes_of ''saltsalt'') (bytes_of ''pw'') 2048))))"
    by (simp only: s c)
  with a c show ?thesis by (simp only: simp_thms)
qed

theorem C3_secret_to_key_counterexample:
  "secret_to_key (2 ^ 63) 20 [] (replicate 9 0)
     = Some (Inr [0x60, 0xca, 0xcb, 0xf3, 0xd7, 0x2e, 0x1e, 0x78, 0x34, 0x20,
                  0x3d, 0xa6, 0x08, 0x03, 0x7b, 0x1b, 0xf8, 0x3b, 0x40, 0xe8])
   \<and> secret_to_key (2 ^ 63) 20 [] (replicate 9 0)
     \<noteq> Some (Inr [0x1e, 0x41, 0x38, 0x4b, 0xef, 0xf8, 0x2b, 0xb2, 0x0a, 0x89,
                  0x4d, 0x8a, 0x6d, 0x2b, 0x4b, 0xab, 0xed, 0x57, 0x90, 0xc6])"
  using secret_to_key_zero_vector by simp

subsection \<open>C4: the Diffie-Hellman public-value check\<close>

lemma tor_check_dh_key_values: "tor_check_dh_key bn = 0 \<or> tor_check_dh_key bn = - 1"
  by (simp add: tor_check_dh_key_def)

lemma dh_param_p_bits: "2 ^ 1023 \<le> dh_param_p \<and> dh_param_p < 2 ^ 1024"
  by (simp add: dh_param_p_def)

text \<open>
  C4. \<^verbatim>\<open>tor_check_dh_key\<close> accepts \<open>bn\<close> (returns 0) exactly when \<open>2 \<le> bn \<le> p - 2\<close>, for
  the 1024-bit modulus \<open>p\<close> of \<^verbatim>\<open>init_dh_param\<close>, and returns \<open>-1\<close> otherwise; so
  \<open>0\<close>, \<open>1\<close>, \<open>p - 1\<close>, \<open>p\<close> and \<open>p + 1\<close> are rejected. \<^verbatim>\<open>crypto_dh_compute_secret\<close>
  returns \<open>-1\<close> for every peer value the check rejects, whatever \<^verbatim>\<open>DH_compute_key\<close>
  would do, and \<^verbatim>\<open>crypto_dh_generate_public\<close> never keeps a value the check rejects.
\<close>

theorem C4_tor_check_dh_key:
  "(tor_check_dh_key bn = 0 \<longleftrightarrow> 2 \<le> bn \<and> bn \<le> dh_param_p - 2)
   \<and> (tor_check_dh_key bn \<noteq> 0 \<longrightarrow> tor_check_dh_key bn = - 1)
   \<and> tor_check_dh_key 0 = - 1 \<and> tor_check_dh_key 1 = - 1
   \<and> tor_check_dh_key (dh_param_p - 1) = - 1 \<and> tor_check_dh_key dh_param_p = - 1
   \<and> tor_check_dh_key (dh_param_p + 1) = - 1
   \<and> (secret_bytes_out div DIGEST_LEN \<le> 255 \<and> length pubkey < INT_MAX
        \<and> tor_check_dh_key (BN_bin2bn pubkey) \<noteq> 0
      \<longrightarrow> crypto_dh_compute_secret compute env pubkey secret_bytes_out = Inl Err)
   \<and> (crypto_dh_generate_public outcomes env = Some (Inr env')
      \<longrightarrow> (\<exists>gx. dh_pub_key (dh env') = Some gx \<and> 2 \<le> gx \<and> gx \<le> dh_param_p - 2))"
proof -
  have range: "tor_check_dh_key x = 0 \<longleftrightarrow> 2 \<le> x \<and> x \<le> dh_param_p - 2" for x
    by (auto simp: tor_check_dh_key_def)
  have rej: "tor_check_dh_key x \<noteq> 0 \<Longrightarrow> tor_check_dh_key x = - 1" for x
    by (simp add: tor_check_dh_key_def split: if_splits)
  have small: "tor_check_dh_key 0 = - 1" "tor_check_dh_key 1 = - 1"
    by (simp_all add: tor_check_dh_key_def)
  have big: "tor_check_dh_key (dh_param_p - 1) = - 1" "tor_check_dh_key dh_param_p = - 1"
    "tor_check_dh_key (dh_param_p + 1) = - 1"
    by (simp_all add: tor_check_dh_key_def)
  have secret: "crypto_dh_compute_secret compute env pubkey secret_bytes_out = Inl Err"
    if "secret_bytes_out div DIGEST_LEN \<le> 255" "length pubkey < INT_MAX"
      "tor_check_dh_key (BN_bin2bn pubkey) \<noteq> 0"
    using that rej [of "BN_bin2bn pubkey"] by (simp add: crypto_dh_compute_secret_def)
  have gen: "\<exists>gx. dh_pub_key (dh env') = Some gx \<and> 2 \<le> gx \<and> gx \<le> dh_param_p - 2"
    if "crypto_dh_generate_public outcomes env = Some (Inr env')"
    using that
  proof (induction outcomes env rule: crypto_dh_generate_public.induct)
    case (1 env)
    then show ?case by simp
  next
    case (2 rest env)
    then show ?case by simp
  next
    case (3 x gx rest env)
    show ?case
    proof (cases "tor_check_dh_key gx < 0")
      case True
      with 3 show ?thesis by simp
    next
      case False
      then have "tor_check_dh_key gx = 0"
        using tor_check_dh_key_values [of gx] by auto
      with 3 False range [of gx] show ?thesis by auto
    qed
  qed
  from range rej small big secret gen show ?thesis by blast
qed

theorem C4_tor_check_dh_key_witness:
  "tor_check_dh_key 2 = 0 \<and> tor_check_dh_key (dh_param_p - 2) = 0
   \<and> crypto_dh_compute_secret (\<lambda>bn k. (1, [7])) crypto_dh_new [1] 20 = Inl Err
   \<and> crypto_dh_generate_public [Some (5, 1), Some (6, 4)] crypto_dh_new
       = Some (Inr (crypto_dh_new\<lparr>dh := (dh crypto_dh_new)\<lparr>dh_pub_key := Some 4,
            dh_priv_key := Some 6\<rparr>\<rparr>))"
proof -
  have a: "tor_check_dh_key 2 = 0"
    using C4_tor_check_dh_key [of 2 20 "[1]" "\<lambda>bn k. (1, [7])" crypto_dh_new "[]" crypto_dh_new]
    by (simp add: dh_param_p_def)
  have b: "tor_check_dh_key (dh_param_p - 2) = 0"
    using C4_tor_check_dh_key [of "dh_param_p - 2" 20 "[1]" "\<lambda>bn k. (1, [7])" crypto_dh_new "[]"
        crypto_dh_new]
    by (simp add: dh_param_p_def)
  have c: "crypto_dh_compute_secret (\<lambda>bn k. (1, [7])) crypto_dh_new [1] 20 = Inl Err"
    using C4_tor_check_dh_key [of 2 20 "[1]" "\<lambda>bn k. (1, [7])" crypto_dh_new "[]" crypto_dh_new]
    by (simp add: DIGEST_LEN_def INT_MAX_def BN_bin2bn_def tor_check_dh_key_def)
  have d: "crypto_dh_generate_public [Some (5, 1), Some (6, 4)] crypto_dh_new
       = Some (Inr (crypto_dh_new\<lparr>dh := (dh crypto_dh_new)\<lparr>dh_pub_key := Some 4,
            dh_priv_key := Some 6\<rparr>\<rparr>))"
    by (simp add: tor_check_dh_key_def dh_param_p_def crypto_dh_new_def)
  from a b c d show ?thesis by simp
qed

subsection \<open>C5: rejection sampling in \<^verbatim>\<open>crypto_rand_int\<close>\<close>

text \<open>The loop returns the first draw below the cutoff, reduced.\<close>

lemma crypto_rand_int_loop_first:
  assumes "k \<le> m" "draws m < cutoff" "\<forall>i. k \<le> i \<and> i < m \<longrightarrow> \<not> draws i < cutoff"
  shows "crypto_rand_int_loop draws max' cutoff k = Some (draws m mod max')"
  using assms
proof (induction "m - k" arbitrary: k)
  case 0
  then have "k = m" by simp
  with "0.prems"(2) show ?case
    by (subst crypto_rand_int_loop.simps) simp
next
  case (Suc n)
  then have lt: "k < m" by simp
  with Suc.prems(3) have no: "\<not> draws k < cutoff" by simp
  have "crypto_rand_int_loop draws max' cutoff (k + 1) = Some (draws m mod max')"
  proof (rule Suc.hyps(1))
    show "n = m - (k + 1)" using Suc.hyps(2) by simp
    show "k + 1 \<le> m" using lt by simp
    show "draws m < cutoff" by (rule Suc.prems(2))
    show "\<forall>i. k + 1 \<le> i \<and> i < m \<longrightarrow> \<not> draws i < cutoff" using Suc.prems(3) by simp
  qed
  with no show ?case
    by (subst crypto_rand_int_loop.simps) simp
qed

text \<open>The cutoff is a multiple of \<open>max\<close>, and at least \<open>max\<close>.\<close>

lemma crypto_rand_cutoff:
  assumes "0 < max'" "max' < UINT_MAX"
  shows "unat (UINT_MAX - UINT_MAX mod max') = 4294967295 - 4294967295 mod unat max'"
    and "unat max' dvd unat (UINT_MAX - UINT_MAX mod max')"
    and "unat max' \<le> unat (UINT_MAX - UINT_MAX mod max')"
proof -
  have u: "unat UINT_MAX = 4294967295" by (simp add: UINT_MAX_def)
  from assms(1) have pos: "0 < unat max'" by (simp add: word_less_nat_alt)
  from assms(2) have lt: "unat max' < 4294967295" by (simp add: word_less_nat_alt u)
  have "UINT_MAX mod max' \<le> UINT_MAX" by (simp add: word_le_nat_alt unat_mod)
  then have "unat (UINT_MAX - UINT_MAX mod max') = unat UINT_MAX - unat (UINT_MAX mod max')"
    by (rule unat_sub)
  then show c: "unat (UINT_MAX - UINT_MAX mod max') = 4294967295 - 4294967295 mod unat max'"
    by (simp add: u unat_mod)
  have "4294967295 - 4294967295 mod unat max' = unat max' * (4294967295 div unat max')"
    by (simp add: minus_mod_eq_mult_div)
  with c have m: "unat (UINT_MAX - UINT_MAX mod max') = unat max' * (4294967295 div unat max')"
    by simp
  then show "unat max' dvd unat (UINT_MAX - UINT_MAX mod max')" by simp
  from lt pos have "1 \<le> 4294967295 div unat max'"
    by (simp add: Suc_le_eq div_greater_zero_iff)
  then have "unat max' * 1 \<le> unat max' * (4294967295 div unat max')"
    by (rule mult_le_mono2)
  with m show "unat max' \<le> unat (UINT_MAX - UINT_MAX mod max')" by simp
qed

text \<open>
  No bias: below a multiple \<open>c\<close> of \<open>m\<close>, every residue \<open>r < m\<close> has exactly
  \<open>c div m\<close> numbers.
\<close>

lemma residue_class_card:
  fixes c m r :: nat
  assumes "m dvd c" "r < m"
  shows "card {v. v < c \<and> v mod m = r} = c div m"
proof -
  from assms(2) have mpos: "0 < m" by simp
  from assms(1) obtain q where c: "c = m * q" by (auto elim: dvdE)
  have "{v. v < c \<and> v mod m = r} = (\<lambda>j. j * m + r) ` {..<q}"
  proof (rule set_eqI, rule iffI)
    fix v
    assume "v \<in> {v. v < c \<and> v mod m = r}"
    then have v: "v < m * q" "v mod m = r" by (simp_all add: c)
    have "v = (v div m) * m + v mod m" by simp
    with v(2) have d: "v = (v div m) * m + r" by simp
    from v(1) mpos have "v div m < q"
      by (simp add: less_mult_imp_div_less mult.commute)
    with d show "v \<in> (\<lambda>j. j * m + r) ` {..<q}" by blast
  next
    fix v
    assume "v \<in> (\<lambda>j. j * m + r) ` {..<q}"
    then obtain j where j: "j < q" "v = j * m + r" by blast
    from j(1) have "j + 1 \<le> q" by simp
    then have "(j + 1) * m \<le> q * m" by (rule mult_le_mono1)
    with assms(2) j(2) have "v < m * q" by (simp add: mult.commute)
    moreover from assms(2) j(2) have "v mod m = r" by simp
    ultimately show "v \<in> {v. v < c \<and> v mod m = r}" by (simp add: c)
  qed
  moreover have "inj_on (\<lambda>j. j * m + r) {..<q}"
    using mpos by (auto simp: inj_on_def)
  ultimately have "card {v. v < c \<and> v mod m = r} = card {..<q}"
    by (simp add: card_image)
  with c mpos show ?thesis by simp
qed

lemma crypto_rand_int_no_bias:
  assumes "0 < max'" "max' < UINT_MAX" "r < max'"
  shows "card {v :: u32. v < UINT_MAX - UINT_MAX mod max' \<and> v mod max' = r}
           = unat (UINT_MAX - UINT_MAX mod max') div unat max'"
proof -
  define c where "c = UINT_MAX - UINT_MAX mod max'"
  have img: "unat ` {v :: u32. v < c \<and> v mod max' = r} = {n. n < unat c \<and> n mod unat max' = unat r}"
  proof (rule set_eqI, rule iffI)
    fix n
    assume "n \<in> unat ` {v :: u32. v < c \<and> v mod max' = r}"
    then obtain v where v: "n = unat v" "v < c" "v mod max' = r" by blast
    from v(2) have "unat v < unat c" by (simp add: word_less_nat_alt)
    moreover have "unat v mod unat max' = unat (v mod max')" by (simp add: unat_mod)
    ultimately show "n \<in> {n. n < unat c \<and> n mod unat max' = unat r}"
      using v(1,3) by simp
  next
    fix n
    assume "n \<in> {n. n < unat c \<and> n mod unat max' = unat r}"
    then have n: "n < unat c" "n mod unat max' = unat r" by simp_all
    have "unat c < 2 ^ 32" using unsigned_less [of c] by simp
    with n(1) have "n < 2 ^ 32" by simp
    then have un: "unat (of_nat n :: u32) = n" by (simp add: unat_of_nat)
    have 1: "(of_nat n :: u32) < c"
      using n(1) un by (simp add: word_less_nat_alt)
    have "unat ((of_nat n :: u32) mod max') = unat r"
      using n(2) un by (simp add: unat_mod)
    then have 2: "(of_nat n :: u32) mod max' = r"
      by (simp only: word_unat_eq_iff)
    from 1 2 have "(of_nat n :: u32) \<in> {v. v < c \<and> v mod max' = r}" by simp
    then have "unat (of_nat n :: u32) \<in> unat ` {v. v < c \<and> v mod max' = r}"
      by (rule imageI)
    with un show "n \<in> unat ` {v :: u32. v < c \<and> v mod max' = r}"
      by simp
  qed
  have "inj_on unat {v :: u32. v < c \<and> v mod max' = r}"
    by (rule inj_onI) (simp add: word_unat_eq_iff)
  then have "card (unat ` {v :: u32. v < c \<and> v mod max' = r}) = card {v :: u32. v < c \<and> v mod max' = r}"
    by (rule card_image)
  with img have "card {v :: u32. v < c \<and> v mod max' = r}
      = card {n. n < unat c \<and> n mod unat max' = unat r}"
    by simp
  also have "\<dots> = unat c div unat max'"
  proof (rule residue_class_card)
    show "unat max' dvd unat c"
      unfolding c_def by (rule crypto_rand_cutoff(2) [OF assms(1,2)])
    show "unat r < unat max'"
      using assms(3) by (simp add: word_less_nat_alt)
  qed
  finally show ?thesis by (simp add: c_def)
qed

lemma sint_small:
  assumes "unat (w :: u32) < 2 ^ 31"
  shows "sint w = int (unat w)"
proof -
  from assms have b: "int (unat w) < 2 ^ 31"
    by (simp only: of_nat_less_numeral_power_cancel_iff)
  have "- (2 ^ 31) \<le> int (unat w)" by (rule order_trans [of _ 0]) simp_all
  with b have e: "signed_take_bit 31 (int (unat w)) = int (unat w)"
    by (intro signed_take_bit_int_eq_self)
  have l: "LENGTH(32) - Suc 0 = 31" by simp
  have "sint w = signed_take_bit 31 (int (unat w))"
    by (simp only: sint_uint l uint_nat)
  with e show ?thesis by (simp only:)
qed

text \<open>
  What the function returns: with the assertions met and a first accepted draw, that draw
  reduced; it is below \<open>max\<close> as an \<^verbatim>\<open>unsigned int\<close>, and as the \<^verbatim>\<open>int\<close> returned it is
  in \<open>[0, max)\<close> when \<open>max\<close> is at most \<open>2 ^ 31\<close>.
\<close>

lemma crypto_rand_int_returns:
  assumes "0 < max'" "max' < UINT_MAX"
    and "draws m < UINT_MAX - UINT_MAX mod max'"
    and "\<forall>i. i < m \<longrightarrow> \<not> draws i < UINT_MAX - UINT_MAX mod max'"
  shows "crypto_rand_int draws max' = Some (Inr (sint (draws m mod max')))"
    and "draws m mod max' < max'"
    and "unat max' \<le> 2 ^ 31 \<Longrightarrow>
           0 \<le> sint (draws m mod max') \<and> sint (draws m mod max') < int (unat max')"
proof -
  from assms(4) have "\<forall>i. 0 \<le> i \<and> i < m \<longrightarrow> \<not> draws i < UINT_MAX - UINT_MAX mod max'"
    by simp
  from crypto_rand_int_loop_first [OF _ assms(3) this, of max']
  have "crypto_rand_int_loop draws max' (UINT_MAX - UINT_MAX mod max') 0 = Some (draws m mod max')"
    by simp
  with assms(1,2) show "crypto_rand_int draws max' = Some (Inr (sint (draws m mod max')))"
    by (simp add: crypto_rand_int_def)
  from assms(1) show lt: "draws m mod max' < max'"
    by (rule word_mod_less_divisor)
  show "0 \<le> sint (draws m mod max') \<and> sint (draws m mod max') < int (unat max')"
    if small: "unat max' \<le> 2 ^ 31"
  proof -
    from lt have u: "unat (draws m mod max') < unat max'" by (simp only: word_less_nat_alt)
    with small have "unat (draws m mod max') < 2 ^ 31" by simp
    then have "sint (draws m mod max') = int (unat (draws m mod max'))"
      by (rule sint_small)
    with u show ?thesis by (simp only: of_nat_less_iff of_nat_0_le_iff simp_thms)
  qed
qed

text \<open>
  C5. The claim holds of the \<^verbatim>\<open>unsigned int\<close> the loop computes, but the function returns
  it as an \<^verbatim>\<open>int\<close>: with \<open>max = 2 ^ 31 + 1\<close>, which both assertions admit, the cutoff is
  \<open>2 ^ 31 + 1\<close>, the draw \<open>2 ^ 31\<close> is accepted, and the value returned is
  \<open>- 2 ^ 31\<close>, outside \<open>[0, max)\<close>.
\<close>

theorem C5_crypto_rand_int_negative:
  "(0 :: u32) < 2147483649 \<and> (2147483649 :: u32) < UINT_MAX
   \<and> UINT_MAX - UINT_MAX mod 2147483649 = 2147483649
   \<and> crypto_rand_int (\<lambda>k. 2147483648) 2147483649 = Some (Inr (- 2147483648))"
proof -
  have a: "(0 :: u32) < 2147483649" "(2147483649 :: u32) < UINT_MAX"
    by (simp_all add: UINT_MAX_def)
  have c: "UINT_MAX - UINT_MAX mod 2147483649 = 2147483649"
    by (simp add: UINT_MAX_def word_mod_def)
  have l: "crypto_rand_int_loop (\<lambda>k. 2147483648) 2147483649 2147483649 0 = Some 2147483648"
    by (subst crypto_rand_int_loop.simps) (simp add: word_mod_def)
  have "sint (2147483648 :: u32) = - 2147483648" by simp
  with a c l show ?thesis
    by (simp add: crypto_rand_int_def)
qed

subsection \<open>C6: base64 decoding\<close>

lemma indexed_all_nth:
  assumes "indexed_all i Q vs" "k < length vs"
  shows "Q (i + k) (vs ! k)"
  using assms
proof (induction vs arbitrary: i k)
  case Nil
  then show ?case by simp
next
  case (Cons v vs)
  show ?case
  proof (cases k)
    case 0
    with Cons.prems show ?thesis by simp
  next
    case (Suc j)
    with Cons.prems have "indexed_all (i + 1) Q vs" "j < length vs" by simp_all
    from Cons.IH [OF this] Suc show ?thesis by simp
  qed
qed

lemma b64_alphabet_codes:
  "map of_char b64_alphabet =
     [65, 66, 67, 68, 69, 70, 71, 72, 73, 74, 75, 76, 77 :: nat]
     @ [78, 79, 80, 81, 82, 83, 84, 85, 86, 87, 88, 89, 90]
     @ [97, 98, 99, 100, 101, 102, 103, 104, 105, 106, 107, 108, 109]
     @ [110, 111, 112, 113, 114, 115, 116, 117, 118, 119, 120, 121, 122]
     @ [48, 49, 50, 51, 52, 53, 54, 55, 56, 57, 43, 47]"
  by (simp add: b64_alphabet_def)

text \<open>Every entry of the table, against the classification of its index.\<close>

lemma base64_table_scan:
  "indexed_all 0 (\<lambda>i v. v =
     (if i \<in> set [0x09, 0x0A, 0x0B, 0x0D, 0x20] then b64_SP else if i = 61 then b64_PAD
      else case map_option of_nat (index_of (map of_char b64_alphabet) i 0) of
             Some v \<Rightarrow> v | None \<Rightarrow> b64_X)) base64_decode_table"
  by (simp only: base64_decode_table_def b64_alphabet_codes b64_X_def b64_SP_def b64_PAD_def
      append.simps indexed_all.simps index_of.simps list.set insert_iff empty_iff if_True if_False
      option.map option.case simp_thms rel_simps arith_simps numeral_One [symmetric]
      add_0 of_nat_numeral semiring_1_class.of_nat_0 cong: if_weak_cong)

lemma base64_table_length: "length base64_decode_table = 256"
  by (simp add: base64_decode_table_def)

lemma byte_is_pad: "unat c = 61 \<longleftrightarrow> c = (0x3D :: byte)"
proof
  assume "unat c = 61"
  then have "unat c = unat (0x3D :: byte)" by simp
  then show "c = 0x3D" by (simp only: word_unat_eq_iff)
next
  assume "c = 0x3D"
  then show "unat c = 61" by simp
qed

lemma base64_table_class:
  "base64_table_at c =
     (if b64_space c then b64_SP else if c = 0x3D then b64_PAD
      else case b64_value c of Some v \<Rightarrow> v | None \<Rightarrow> b64_X)"
proof -
  have "unat c < length base64_decode_table"
    using unsigned_less [of c] by (simp add: base64_table_length)
  from indexed_all_nth [OF base64_table_scan this] show ?thesis
    by (simp add: base64_table_at_def b64_space_def b64_value_def byte_is_pad)
qed

lemma index_of_bound:
  assumes "index_of xs x k = Some i"
  shows "i < k + length xs"
  using assms
proof (induction xs arbitrary: k)
  case Nil
  then show ?case by simp
next
  case (Cons y ys)
  show ?case
  proof (cases "x = y")
    case True
    with Cons.prems show ?thesis by simp
  next
    case False
    with Cons.prems have "index_of ys x (k + 1) = Some i" by simp
    from Cons.IH [OF this] show ?thesis by simp
  qed
qed

lemma b64_value_small:
  assumes "b64_value c = Some v"
  shows "unat v < 64"
proof -
  from assms obtain i where i: "index_of (map of_char b64_alphabet) (unat c) 0 = Some i"
    and v: "v = of_nat i"
    by (auto simp: b64_value_def)
  from index_of_bound [OF i] have "i < 64"
    by (simp add: b64_alphabet_def)
  then have "unat (of_nat i :: byte) = i"
    by (simp add: unat_of_nat)
  with v \<open>i < 64\<close> show ?thesis by simp
qed

lemma b64_value_not_mark:
  assumes "b64_value c = Some v"
  shows "v \<noteq> b64_X \<and> v \<noteq> b64_SP \<and> v \<noteq> b64_PAD"
  using b64_value_small [OF assms] by (auto simp: b64_X_def b64_SP_def b64_PAD_def)

lemma b64_space_not_pad: "b64_space c \<Longrightarrow> c \<noteq> 0x3D"
  by (auto simp: b64_space_def)

lemma b64_pack_snoc: "b64_pack (vs @ [v]) = push_bit 6 (b64_pack vs) OR ucast v"
  by (simp add: b64_pack_def)

lemma short_list_cases:
  assumes "length xs < 4"
  obtains "xs = []" | a where "xs = [a]" | a b where "xs = [a, b]" | a b c where "xs = [a, b, c]"
proof (cases xs)
  case Nil
  then show ?thesis using that(1) by simp
next
  case (Cons a ys)
  note xs = this
  show ?thesis
  proof (cases ys)
    case Nil
    with xs show ?thesis using that(2) by simp
  next
    case (Cons b zs)
    note ys = this
    show ?thesis
    proof (cases zs)
      case Nil
      with xs ys show ?thesis using that(3) by simp
    next
      case (Cons c ws)
      with xs ys assms have "ws = []" by simp
      with xs ys Cons show ?thesis using that(4) by simp
    qed
  qed
qed

lemma three_quarters_mono:
  fixes a b :: nat
  assumes "a \<le> b"
  shows "(a * 3) div 4 \<le> (b * 3) div 4"
  using assms by (intro div_le_mono) simp

lemma base64_leftover_pend:
  assumes "length pend < 4" "length dest + (length pend * 3) div 4 \<le> destlen"
  shows "base64_leftover destlen (b64_pack pend) (length pend) dest =
     (case b64_bytes pend of Inl e \<Rightarrow> Inl e | Inr bs \<Rightarrow> Inr (dest @ bs))"
  using assms by (cases pend rule: short_list_cases) (simp_all add: base64_leftover_def)

lemma b64_bytes_append4:
  assumes "length pend = 3"
  shows "b64_bytes (pend @ v # vs) =
     (case b64_bytes vs of
        Inl e \<Rightarrow> Inl e
      | Inr bs \<Rightarrow> Inr ([ucast (drop_bit 16 (b64_pack (pend @ [v]))),
                        ucast (drop_bit 8 (b64_pack (pend @ [v])) AND 0xff),
                        ucast (b64_pack (pend @ [v]) AND 0xff)] @ bs))"
proof -
  from assms have "length pend < 4" by simp
  then show ?thesis
  proof (cases pend rule: short_list_cases)
    case (4 a b c)
    then show ?thesis
      by (cases "b64_bytes vs") simp_all
  qed (use assms in simp_all)
qed

text \<open>
  The loop and the closing switch against the description, from any state of the
  accumulator: \<open>pend\<close> are the 6-bit values it holds. With room for three bytes per four
  characters still to come, no write leaves the buffer.
\<close>

lemma base64_loop_spec:
  assumes "length pend < 4"
    and "length dest + ((length pend + length src) * 3) div 4 \<le> destlen"
  shows "(case base64_loop destlen src (b64_pack pend) (length pend) dest of
            Inl e \<Rightarrow> Inl e
          | Inr (n, n_idx, dest') \<Rightarrow> base64_leftover destlen n n_idx dest')
         = (if list_ex (\<lambda>c. b64_value c = None) (b64_data src) then Inl Err
            else (case b64_bytes (pend @ map (\<lambda>c. the (b64_value c)) (b64_data src)) of
                    Inl e \<Rightarrow> Inl e
                  | Inr bs \<Rightarrow> Inr (dest @ bs)))"
  using assms
proof (induction src arbitrary: pend dest)
  case Nil
  then show ?case
    by (simp add: b64_data_def base64_leftover_pend)
next
  case (Cons c src)
  note cls = base64_table_class [of c]
  have "(length pend * 3) div 4 \<le> ((length pend + length (c # src)) * 3) div 4"
    by (rule three_quarters_mono) simp
  with Cons.prems(2) have room_now: "length dest + (length pend * 3) div 4 \<le> destlen"
    by linarith
  have "((length pend + length src) * 3) div 4 \<le> ((length pend + length (c # src)) * 3) div 4"
    by (rule three_quarters_mono) simp
  with Cons.prems(2) have room_skip: "length dest + ((length pend + length src) * 3) div 4 \<le> destlen"
    by linarith
  show ?case
  proof (cases "b64_space c")
    case True
    with cls have t: "base64_table_at c = b64_SP" by simp
    from True have d: "b64_data (c # src) = b64_data src"
      using b64_space_not_pad [of c] by (simp add: b64_data_def)
    from t d Cons.IH [OF Cons.prems(1) room_skip] show ?thesis
      by (simp add: b64_X_def b64_SP_def)
  next
    case nsp: False
    show ?thesis
    proof (cases "c = 0x3D")
      case True
      with nsp cls have t: "base64_table_at c = b64_PAD" by simp
      from True have d: "b64_data (c # src) = []"
        by (simp add: b64_data_def)
      from t d show ?thesis
        by (simp add: b64_X_def b64_SP_def b64_PAD_def
            base64_leftover_pend [OF Cons.prems(1) room_now])
    next
      case npad: False
      from nsp npad have d: "b64_data (c # src) = c # b64_data src"
        by (simp add: b64_data_def)
      show ?thesis
      proof (cases "b64_value c")
        case None
        with nsp npad cls have t: "base64_table_at c = b64_X" by simp
        from t d None show ?thesis by simp
      next
        case (Some v)
        with nsp npad cls have t: "base64_table_at c = v" by simp
        note nm = b64_value_not_mark [OF Some]
        show ?thesis
        proof (cases "length pend = 3")
          case True
          with Cons.prems(2) have fits: "length dest + 3 + (length src * 3) div 4 \<le> destlen"
            by simp
          then have now: "\<not> destlen < length dest + 3" by simp
          have e: "length ([] :: byte list) < 4" by simp
          have ih:
            "(case base64_loop destlen src 0 0 dest2 of
                Inl e \<Rightarrow> Inl e
              | Inr (n, n_idx, dest') \<Rightarrow> base64_leftover destlen n n_idx dest')
             = (if list_ex (\<lambda>c. b64_value c = None) (b64_data src) then Inl Err
                else (case b64_bytes (map (\<lambda>c. the (b64_value c)) (b64_data src)) of
                        Inl e \<Rightarrow> Inl e
                      | Inr bs \<Rightarrow> Inr (dest2 @ bs)))"
            if "length dest2 = length dest + 3" for dest2
            using Cons.IH [OF e, of dest2] fits that by (simp add: b64_pack_def)
          show ?thesis
            using t nm d Some True now
            by (cases "b64_bytes (map (\<lambda>c. the (b64_value c)) (b64_data src))")
              (simp_all add: ih b64_bytes_append4 b64_pack_snoc)
        next
          case False
          with Cons.prems have l: "length (pend @ [v]) < 4" by simp
          from Cons.prems(2) have
            r: "length dest + ((length (pend @ [v]) + length src) * 3) div 4 \<le> destlen"
            by simp
          from Cons.IH [OF l r] show ?thesis
            using t nm d Some False by (simp add: b64_pack_snoc)
        qed
      qed
    qed
  qed
qed

lemma b64_bytes_length:
  assumes "b64_bytes vs = Inr bs"
  shows "length bs \<le> (length vs * 3) div 4"
  using assms
proof (induction vs arbitrary: bs rule: b64_bytes.induct)
  case (1 v0 v1 v2 v3 vs)
  then obtain bs' where r: "b64_bytes vs = Inr bs'" and bs: "length bs = 3 + length bs'"
    by (cases "b64_bytes vs") auto
  from "1.IH" [OF r] have "length bs' \<le> (length vs * 3) div 4" .
  with bs show ?case by simp
qed simp_all

lemma b64_data_length: "length (b64_data src) \<le> length src"
proof -
  have "length (b64_data src) \<le> length (takeWhile (\<lambda>c. c \<noteq> 0x3D) src)"
    by (simp add: b64_data_def)
  also have "\<dots> \<le> length src"
    by (rule length_takeWhile_le)
  finally show ?thesis .
qed

lemma base64_spec_length:
  assumes "base64_spec src = Inr bs"
  shows "length bs \<le> (length src * 3) div 4"
proof -
  from assms have "b64_bytes (map (\<lambda>c. the (b64_value c)) (b64_data src)) = Inr bs"
    by (simp add: base64_spec_def split: if_splits)
  from b64_bytes_length [OF this] have "length bs \<le> (length (b64_data src) * 3) div 4"
    by simp
  also have "\<dots> \<le> (length src * 3) div 4"
    using b64_data_length [of src] by (intro div_le_mono) simp
  finally show ?thesis .
qed

lemma base64_examples:
  "base64_decode (2 ^ 63) 3 (bytes_of ''YQ=='') = Inr (1, bytes_of ''a'')"
  "base64_decode (2 ^ 63) 3 (bytes_of ''YQ'') = Inr (1, bytes_of ''a'')"
  "base64_decode (2 ^ 63) 3 (bytes_of ''YQ==='') = Inr (1, bytes_of ''a'')"
  "base64_decode (2 ^ 63) 3 [0x59, 0x0C, 0x51, 0x3D, 0x3D] = Inl Err"
  "base64_decode (2 ^ 63) 3 [0x59, 0x0B, 0x51, 0x3D, 0x3D] = Inr (1, bytes_of ''a'')"
  by (simp_all add: base64_decode_def bytes_of_def base64_table_at_def base64_decode_table_def
      b64_X_def b64_SP_def b64_PAD_def base64_leftover_def INT_MAX_def size_t_of_def
      ssize_t_of_def)

text \<open>
  C6 (amended). For a build without \<^verbatim>\<open>USE_OPENSSL_BASE64\<close>, sizes of 64 bits and an input
  short enough that \<open>3 * srclen\<close> does not wrap around: \<^verbatim>\<open>base64_decode\<close> returns \<open>-1\<close>
  when the output capacity is below \<open>3 * srclen / 4\<close> or above \<^verbatim>\<open>SIZE_T_CEILING\<close>.
  Otherwise it decodes as described: TAB, LF, VT, CR and SP are skipped, the data ends at
  the first \<open>=\<close>, any other byte outside the alphabet gives \<open>-1\<close> (form feed, \<open>0x0C\<close>,
  among them); no leftover 6-bit value adds nothing, one is an error, two give one byte
  from the top 8 of their 12 bits, three give two bytes; the padding is never counted, so
  \<open>YQ==\<close>, \<open>YQ\<close> and \<open>YQ===\<close> all give the byte \<open>a\<close>. No write leaves the buffer. After
  a successful decoding the first closing assertion fails exactly when the capacity is
  \<open>2 ^ 63\<close> or more, where \<^verbatim>\<open>(ssize_t)destlen\<close> is negative; the second fails when more
  than \<^verbatim>\<open>INT_MAX\<close> bytes were written.
\<close>

theorem C6_base64_decode:
  assumes "length src * 3 < 2 ^ 64" "destlen < 2 ^ 64"
  shows "base64_decode ceiling destlen src =
     (if destlen < (length src * 3) div 4 \<or> ceiling < destlen then Inl Err
      else case base64_spec src of
             Inl e \<Rightarrow> Inl e
           | Inr bs \<Rightarrow> if 2 ^ 63 \<le> destlen \<or> INT_MAX < length bs then Inl Assert
                       else Inr (int (length bs), bs))
   \<and> base64_decode (2 ^ 63) 3 (bytes_of ''YQ=='') = Inr (1, bytes_of ''a'')
   \<and> base64_decode (2 ^ 63) 3 (bytes_of ''YQ'') = Inr (1, bytes_of ''a'')
   \<and> base64_decode (2 ^ 63) 3 (bytes_of ''YQ==='') = Inr (1, bytes_of ''a'')
   \<and> base64_decode (2 ^ 63) 3 [0x59, 0x0B, 0x51, 0x3D, 0x3D] = Inr (1, bytes_of ''a'')
   \<and> base64_decode (2 ^ 63) 3 [0x59, 0x0C, 0x51, 0x3D, 0x3D] = Inl Err"
proof -
  from assms(1) have cap: "size_t_of (length src * 3) div 4 = (length src * 3) div 4"
    by (simp add: size_t_of_def)
  have main: "base64_decode ceiling destlen src =
     (if destlen < (length src * 3) div 4 \<or> ceiling < destlen then Inl Err
      else case base64_spec src of
             Inl e \<Rightarrow> Inl e
           | Inr bs \<Rightarrow> if 2 ^ 63 \<le> destlen \<or> INT_MAX < length bs then Inl Assert
                       else Inr (int (length bs), bs))"
  proof (cases "destlen < (length src * 3) div 4 \<or> ceiling < destlen")
    case True
    then show ?thesis by (auto simp: base64_decode_def cap)
  next
    case False
    then have room: "length ([] :: byte list) + ((length ([] :: byte list) + length src) * 3) div 4 \<le> destlen"
      by simp
    have e: "length ([] :: byte list) < 4" by simp
    have loop: "(case base64_loop destlen src 0 0 [] of
            Inl e \<Rightarrow> Inl e
          | Inr (n, n_idx, dest') \<Rightarrow> base64_leftover destlen n n_idx dest') = base64_spec src"
      using base64_loop_spec [OF e room]
      by (cases "b64_bytes (map (\<lambda>c. the (b64_value c)) (b64_data src))")
        (simp_all add: base64_spec_def b64_pack_def)
    show ?thesis
    proof (cases "base64_spec src")
      case (Inl e)
      with loop False show ?thesis
        by (cases "base64_loop destlen src 0 0 []") (auto simp: base64_decode_def cap)
    next
      case (Inr bs)
      from base64_spec_length [OF Inr] False have fit: "length bs \<le> destlen" by simp
      from base64_spec_length [OF Inr] assms(1) have small: "length bs < 2 ^ 62" by simp
      then have small': "\<not> (2 :: nat) ^ 63 \<le> length bs" by simp
      have cast: "int (length bs) \<le> ssize_t_of destlen \<longleftrightarrow> \<not> 2 ^ 63 \<le> destlen"
      proof (cases "destlen < 2 ^ 63")
        case True
        with assms(2) fit show ?thesis by (simp add: ssize_t_of_def size_t_of_def)
      next
        case False
        have "int destlen < 2 ^ 64" using assms(2) by (simp flip: of_nat_less_iff)
        then have "int destlen - 2 ^ 64 < 0" by simp
        with False assms(2) show ?thesis by (simp add: ssize_t_of_def size_t_of_def)
      qed
      from loop Inr have l: "(case base64_loop destlen src 0 0 [] of
            Inl e \<Rightarrow> Inl e
          | Inr (n, n_idx, dest') \<Rightarrow> base64_leftover destlen n n_idx dest') = Inr bs" by simp
      have "base64_decode ceiling destlen src =
          (if 2 ^ 63 \<le> length bs then Inl Undefined
           else if \<not> int (length bs) \<le> ssize_t_of destlen then Inl Assert
           else if \<not> int (length bs) \<le> int INT_MAX then Inl Assert
           else Inr (int (length bs), bs))"
        using l False by (cases "base64_loop destlen src 0 0 []") (auto simp: base64_decode_def cap)
      also have "\<dots> = (if 2 ^ 63 \<le> destlen \<or> INT_MAX < length bs then Inl Assert
                       else Inr (int (length bs), bs))"
        using small' cast by auto
      finally show ?thesis using False Inr by simp
    qed
  qed
  from main base64_examples show ?thesis by simp
qed

theorem C6_base64_decode_witness:
  "length (bytes_of ''YQ=='') * 3 < 2 ^ 64 \<and> (2 ^ 63 :: nat) < 2 ^ 64
   \<and> base64_spec (bytes_of ''YQ=='') = Inr (bytes_of ''a'')
   \<and> base64_decode (2 ^ 63) (2 ^ 63) (bytes_of ''YQ=='') = Inl Assert
   \<and> base64_decode (2 ^ 62) (2 ^ 63) (bytes_of ''YQ=='') = Inl Err
   \<and> base64_decode (2 ^ 62) 2 (bytes_of ''YQ=='') = Inl Err"
proof -
  have a: "length (bytes_of ''YQ=='') * 3 < 2 ^ 64" by (simp add: bytes_of_def)
  have b: "(2 ^ 63 :: nat) < 2 ^ 64" "(2 :: nat) < 2 ^ 64" by simp_all
  have s: "base64_spec (bytes_of ''YQ=='') = Inr (bytes_of ''a'')"
    by (simp add: base64_spec_def bytes_of_def b64_data_def b64_space_def b64_value_def
        b64_alphabet_def b64_pack_def)
  have l: "length (bytes_of ''YQ=='') = 4" by (simp add: bytes_of_def)
  from C6_base64_decode [OF a b(1), of "2 ^ 63"] s l
  have 1: "base64_decode (2 ^ 63) (2 ^ 63) (bytes_of ''YQ=='') = Inl Assert" by simp
  from C6_base64_decode [OF a b(1), of "2 ^ 62"] l
  have 2: "base64_decode (2 ^ 62) (2 ^ 63) (bytes_of ''YQ=='') = Inl Err" by simp
  from C6_base64_decode [OF a b(2), of "2 ^ 62"] l
  have 3: "base64_decode (2 ^ 62) 2 (bytes_of ''YQ=='') = Inl Err" by simp
  from a b s 1 2 3 show ?thesis by simp
qed

theorem C6_base64_decode_counterexample:
  "base64_decode (2 ^ 63) 3 [0x59, 0x51, 0x3D, 0x3D] = Inr (1, [0x61])
   \<and> base64_decode (2 ^ 63) 3 [0x59, 0x0C, 0x51, 0x3D, 0x3D] = Inl Err"
  by (simp add: base64_decode_def base64_table_at_def base64_decode_table_def
      b64_X_def b64_SP_def b64_PAD_def base64_leftover_def INT_MAX_def size_t_of_def
      ssize_t_of_def)

subsection \<open>C7: the IV-prefixed envelope decrypt\<close>

text \<open>
  C7. For an input length below \<^verbatim>\<open>INT_MAX\<close> (the function's own assertion),
  \<^verbatim>\<open>crypto_cipher_decrypt_with_iv\<close> returns \<open>-1\<close> exactly when the input is shorter than
  17 bytes or the output buffer is shorter than the input minus 16. Otherwise it installs
  the first 16 input bytes as the counter block, runs the stream over the remaining bytes,
  and returns the input length minus 16.
\<close>

theorem C7_decrypt_with_iv:
  assumes "length from < INT_MAX"
  shows "(crypto_cipher_decrypt_with_iv ops env tolen from = Inl Err
            \<longleftrightarrow> length from < 17 \<or> tolen < length from - 16)
         \<and> (\<not> (length from < 17 \<or> tolen < length from - 16) \<longrightarrow>
              crypto_cipher_decrypt_with_iv ops env tolen from =
                Inr (int (length from) - 16,
                     fst (aes_crypt ops (aes_set_iv ops (cipher env) (take 16 from)) (drop 16 from)),
                     env\<lparr>cipher := snd (aes_crypt ops (aes_set_iv ops (cipher env) (take 16 from))
                                         (drop 16 from))\<rparr>))"
proof (cases "length from < 17 \<or> tolen < length from - 16")
  case True
  with assms show ?thesis
    by (auto simp: crypto_cipher_decrypt_with_iv_def CIPHER_IV_LEN_def)
next
  case False
  then have len: "16 < length from" "\<not> tolen < length from - 16"
    by auto
  obtain to c where ac:
    "aes_crypt ops (aes_set_iv ops (cipher env) (take 16 from)) (drop 16 from) = (to, c)"
    by (cases "aes_crypt ops (aes_set_iv ops (cipher env) (take 16 from)) (drop 16 from)")
  from assms len ac have
    "crypto_cipher_decrypt_with_iv ops env tolen from =
       Inr (int (length from) - 16, to, env\<lparr>cipher := c\<rparr>)"
    by (simp add: crypto_cipher_decrypt_with_iv_def crypto_cipher_set_iv_def
        crypto_cipher_encrypt_def CIPHER_IV_LEN_def of_nat_diff)
  with False ac show ?thesis by simp
qed

theorem C7_decrypt_with_iv_witness:
  "crypto_cipher_decrypt_with_iv toy_aes \<lparr>key = [3], cipher = ([3], [])\<rparr> 2
       [1, 0, 0, 0, 0, 0, 0, 0, 0, 0, 0, 0, 0, 0, 0, 0, 0x10, 0x20]
     = Inr (2, [0x12, 0x22], \<lparr>key = [3], cipher = ([3], [1, 0, 0, 0, 0, 0, 0, 0, 0, 0, 0, 0, 0, 0, 0, 0])\<rparr>)
   \<and> crypto_cipher_decrypt_with_iv toy_aes \<lparr>key = [3], cipher = ([3], [])\<rparr> 1
       [1, 0, 0, 0, 0, 0, 0, 0, 0, 0, 0, 0, 0, 0, 0, 0, 0x10, 0x20] = Inl Err"
proof -
  let ?from = "[1, 0, 0, 0, 0, 0, 0, 0, 0, 0, 0, 0, 0, 0, 0, 0, 0x10, 0x20] :: byte list"
  let ?env = "\<lparr>key = [3], cipher = ([3], [])\<rparr> :: (byte list \<times> byte list) crypto_cipher_env"
  have len: "length ?from < INT_MAX"
    by (simp add: INT_MAX_def)
  have a: "crypto_cipher_decrypt_with_iv toy_aes ?env 2 ?from
     = Inr (2, [0x12, 0x22], \<lparr>key = [3], cipher = ([3], [1, 0, 0, 0, 0, 0, 0, 0, 0, 0, 0, 0, 0, 0, 0, 0])\<rparr>)"
    using C7_decrypt_with_iv [OF len, of toy_aes ?env 2]
    by (simp add: toy_aes_def toy_pad_def)
  have b: "crypto_cipher_decrypt_with_iv toy_aes ?env 1 ?from = Inl Err"
    using C7_decrypt_with_iv [OF len, of toy_aes ?env 1]
    by simp
  from a b show ?thesis by simp
qed

subsection \<open>C8: fingerprint syntax\<close>

lemma check_fingerprint_loop_values:
  "check_fingerprint_loop s i = 0 \<or> check_fingerprint_loop s i = 1"
proof (induction s i rule: check_fingerprint_loop.induct)
  case (1 s i)
  then show ?case
    by (subst (1 2) check_fingerprint_loop.simps) auto
qed

lemma all_from_split:
  fixes P :: "nat \<Rightarrow> bool"
  assumes "i < n"
  shows "(\<forall>j. i \<le> j \<and> j < n \<longrightarrow> P j) \<longleftrightarrow> P i \<and> (\<forall>j. i + 1 \<le> j \<and> j < n \<longrightarrow> P j)"
proof
  assume a: "\<forall>j. i \<le> j \<and> j < n \<longrightarrow> P j"
  with assms have "P i" by simp
  moreover from a have "\<forall>j. i + 1 \<le> j \<and> j < n \<longrightarrow> P j" by simp
  ultimately show "P i \<and> (\<forall>j. i + 1 \<le> j \<and> j < n \<longrightarrow> P j)" ..
next
  assume b: "P i \<and> (\<forall>j. i + 1 \<le> j \<and> j < n \<longrightarrow> P j)"
  show "\<forall>j. i \<le> j \<and> j < n \<longrightarrow> P j"
  proof (intro allI impI)
    fix j assume j: "i \<le> j \<and> j < n"
    show "P j"
    proof (cases "j = i")
      case True
      with b show ?thesis by simp
    next
      case False
      with j have "i + 1 \<le> j" by simp
      with b j show ?thesis by blast
    qed
  qed
qed

lemma check_fingerprint_loop_step:
  assumes "i < 49"
  shows "check_fingerprint_loop s i =
     (if (if i mod 5 = 4 then TOR_ISSPACE (cstr_at s i) else TOR_ISXDIGIT (cstr_at s i))
      then check_fingerprint_loop s (i + 1) else 0)"
  using assms by (subst check_fingerprint_loop.simps) (simp add: FINGERPRINT_LEN_def)

lemma check_fingerprint_loop_end:
  assumes "\<not> i < 49"
  shows "check_fingerprint_loop s i = (if cstr_at s 49 \<noteq> CHR 0x00 then 0 else 1)"
  using assms by (subst check_fingerprint_loop.simps) (simp add: FINGERPRINT_LEN_def)

lemma check_fingerprint_loop_iff:
  "check_fingerprint_loop s i = 1 \<longleftrightarrow>
     (\<forall>j. i \<le> j \<and> j < 49 \<longrightarrow>
        (if j mod 5 = 4 then TOR_ISSPACE (cstr_at s j) else TOR_ISXDIGIT (cstr_at s j)))
     \<and> cstr_at s 49 = CHR 0x00"
proof (induction s i rule: check_fingerprint_loop.induct)
  case (1 s i)
  define ok where "ok j = (if j mod 5 = 4 then TOR_ISSPACE (cstr_at s j) else TOR_ISXDIGIT (cstr_at s j))" for j
  show ?case
  proof (cases "i < 49")
    case False
    then have none: "\<not> (i \<le> j \<and> j < 49)" for j by simp
    from False have "check_fingerprint_loop s i = 1 \<longleftrightarrow> cstr_at s 49 = CHR 0x00"
      by (simp add: check_fingerprint_loop_end)
    with none show ?thesis
      by blast
  next
    case True
    have split: "(\<forall>j. i \<le> j \<and> j < 49 \<longrightarrow> ok j) \<longleftrightarrow> ok i \<and> (\<forall>j. i + 1 \<le> j \<and> j < 49 \<longrightarrow> ok j)"
      using True by (rule all_from_split)
    have step: "check_fingerprint_loop s i = (if ok i then check_fingerprint_loop s (i + 1) else 0)"
      using True by (simp add: check_fingerprint_loop_step ok_def)
    show ?thesis
    proof (cases "ok i")
      case False
      with step split show ?thesis
        unfolding ok_def by simp
    next
      case ok: True
      have ih: "check_fingerprint_loop s (i + 1) = 1 \<longleftrightarrow>
          (\<forall>j. i + 1 \<le> j \<and> j < 49 \<longrightarrow> ok j) \<and> cstr_at s 49 = CHR 0x00"
      proof (cases "i mod 5 = 4")
        case True
        with ok have "\<not> \<not> TOR_ISSPACE (cstr_at s i)" by (simp add: ok_def)
        from "1.IH"(1) [OF \<open>i < 49\<close> [unfolded FINGERPRINT_LEN_def [symmetric]] True this]
        show ?thesis by (simp add: ok_def)
      next
        case False
        with ok have "\<not> \<not> TOR_ISXDIGIT (cstr_at s i)" by (simp add: ok_def)
        from "1.IH"(2) [OF \<open>i < 49\<close> [unfolded FINGERPRINT_LEN_def [symmetric]] False this]
        show ?thesis by (simp add: ok_def)
      qed
      from step ok have "check_fingerprint_loop s i = check_fingerprint_loop s (i + 1)"
        by simp
      with ih split ok show ?thesis
        unfolding ok_def by simp
    qed
  qed
qed

lemma class_not_nul: "\<not> TOR_ISSPACE (CHR 0x00)" "\<not> TOR_ISXDIGIT (CHR 0x00)"
  by (simp_all add: TOR_ISSPACE_def TOR_ISXDIGIT_def)

text \<open>
  C8. For a C string \<open>s\<close> (no NUL before its terminator),
  \<^verbatim>\<open>crypto_pk_check_fingerprint_syntax\<close> returns 1 exactly when \<open>s\<close> has 49 characters,
  every position \<open>i\<close> with \<open>i mod 5 = 4\<close> holds a whitespace character and every other
  position holds one of \<open>0123456789ABCDEF\<close>; otherwise it returns 0.
\<close>

theorem C8_check_fingerprint_syntax:
  assumes "CHR 0x00 \<notin> set s"
  shows "(crypto_pk_check_fingerprint_syntax s = 1 \<longleftrightarrow>
            length s = 49
            \<and> (\<forall>i<49. if i mod 5 = 4
                  then s ! i \<in> set [CHR 0x09, CHR 0x0A, CHR 0x0B, CHR 0x0C, CHR 0x0D, CHR 0x20]
                  else s ! i \<in> set ''0123456789ABCDEF''))
         \<and> (crypto_pk_check_fingerprint_syntax s \<noteq> 1 \<longrightarrow> crypto_pk_check_fingerprint_syntax s = 0)"
proof -
  let ?ok = "\<lambda>j. if j mod 5 = 4 then TOR_ISSPACE (cstr_at s j) else TOR_ISXDIGIT (cstr_at s j)"
  let ?P = "\<lambda>i. if i mod 5 = 4
                  then s ! i \<in> set [CHR 0x09, CHR 0x0A, CHR 0x0B, CHR 0x0C, CHR 0x0D, CHR 0x20]
                  else s ! i \<in> set ''0123456789ABCDEF''"
  have loop: "crypto_pk_check_fingerprint_syntax s = 1 \<longleftrightarrow>
      (\<forall>j<49. ?ok j) \<and> cstr_at s 49 = CHR 0x00"
    by (simp add: crypto_pk_check_fingerprint_syntax_def check_fingerprint_loop_iff)
  have inside: "j < length s" if "?ok j" for j
  proof (rule ccontr)
    assume "\<not> j < length s"
    then have "cstr_at s j = CHR 0x00" by (simp add: cstr_at_def)
    with that class_not_nul show False by (simp split: if_splits)
  qed
  have "(\<forall>j<49. ?ok j) \<and> cstr_at s 49 = CHR 0x00 \<longleftrightarrow> length s = 49 \<and> (\<forall>i<49. ?P i)"
  proof
    assume a: "(\<forall>j<49. ?ok j) \<and> cstr_at s 49 = CHR 0x00"
    then have "48 < length s" using inside [of 48] by simp
    moreover have "\<not> 49 < length s"
    proof
      assume "49 < length s"
      then have "s ! 49 \<in> set s" "cstr_at s 49 = s ! 49"
        by (simp_all add: cstr_at_def)
      with a assms show False by simp
    qed
    ultimately have len: "length s = 49" by simp
    have "?P i" if "i < 49" for i
    proof -
      from a that have "?ok i" by blast
      with that len show ?thesis
        by (simp add: cstr_at_def TOR_ISSPACE_def TOR_ISXDIGIT_def split: if_splits)
    qed
    with len show "length s = 49 \<and> (\<forall>i<49. ?P i)" by blast
  next
    assume b: "length s = 49 \<and> (\<forall>i<49. ?P i)"
    have "?ok j" if "j < 49" for j
    proof -
      from b that have "?P j" by blast
      with that b show ?thesis
        by (simp add: cstr_at_def TOR_ISSPACE_def TOR_ISXDIGIT_def split: if_splits)
    qed
    moreover from b have "cstr_at s 49 = CHR 0x00" by (simp add: cstr_at_def)
    ultimately show "(\<forall>j<49. ?ok j) \<and> cstr_at s 49 = CHR 0x00" by blast
  qed
  with loop have iff: "crypto_pk_check_fingerprint_syntax s = 1 \<longleftrightarrow> length s = 49 \<and> (\<forall>i<49. ?P i)"
    by simp
  have "crypto_pk_check_fingerprint_syntax s \<noteq> 1 \<longrightarrow> crypto_pk_check_fingerprint_syntax s = 0"
    using check_fingerprint_loop_values [of s 0]
    by (auto simp: crypto_pk_check_fingerprint_syntax_def)
  with iff show ?thesis by blast
qed

lemma check_fingerprint_example:
  "crypto_pk_check_fingerprint_syntax ''0123 4567 89AB CDEF 0123 4567 89AB CDEF 0123 4567'' = 1"
  by (simp add: crypto_pk_check_fingerprint_syntax_def check_fingerprint_loop.simps
      FINGERPRINT_LEN_def cstr_at_def TOR_ISSPACE_def TOR_ISXDIGIT_def)

theorem C8_check_fingerprint_syntax_witness:
  "CHR 0x00 \<notin> set ''0123 4567 89AB CDEF 0123 4567 89AB CDEF 0123 4567''
   \<and> crypto_pk_check_fingerprint_syntax ''0123 4567 89AB CDEF 0123 4567 89AB CDEF 0123 4567'' = 1
   \<and> length ''0123 4567 89AB CDEF 0123 4567 89AB CDEF 0123 4567'' = 49
   \<and> CHR 0x00 \<notin> set ''0123456789ABCDEF0123456789ABCDEF01234567''
   \<and> crypto_pk_check_fingerprint_syntax ''0123456789ABCDEF0123456789ABCDEF01234567'' = 0"
proof -
  let ?s = "''0123 4567 89AB CDEF 0123 4567 89AB CDEF 0123 4567''"
  let ?t = "''0123456789ABCDEF0123456789ABCDEF01234567''"
  have nul: "CHR 0x00 \<notin> set ?s" "CHR 0x00 \<notin> set ?t"
    by simp_all
  have "length ?s = 49"
    using C8_check_fingerprint_syntax [OF nul(1)] check_fingerprint_example by blast
  moreover have "crypto_pk_check_fingerprint_syntax ?t = 0"
    using C8_check_fingerprint_syntax [OF nul(2)] by simp
  ultimately show ?thesis
    using nul check_fingerprint_example by simp
qed

subsection \<open>C9: base32 decoding\<close>

lemma byte_in_range:
  fixes c :: byte
  assumes "lo \<le> sint c" "sint c \<le> hi"
  shows "c \<in> set (map word_of_int [lo..hi])"
proof -
  from assms have "sint c \<in> set [lo..hi]" by simp
  then have "word_of_int (sint c) \<in> (word_of_int ` set [lo..hi] :: byte set)" by blast
  then show ?thesis by simp
qed

lemma base32_lower_iff:
  "base32_lower c \<longleftrightarrow> (0x60 < sint c \<and> sint c < 0x7B) \<or> (0x31 < sint c \<and> sint c < 0x38)"
proof
  assume "base32_lower c"
  then show "(0x60 < sint c \<and> sint c < 0x7B) \<or> (0x31 < sint c \<and> sint c < 0x38)"
    by (auto simp: base32_lower_def bytes_of_def)
next
  assume r: "(0x60 < sint c \<and> sint c < 0x7B) \<or> (0x31 < sint c \<and> sint c < 0x38)"
  have "c \<in> set (map word_of_int [97..122]) \<or> c \<in> set (map word_of_int [50..55])"
    using r byte_in_range [of 97 c 122] byte_in_range [of 50 c 55] by auto
  then show "base32_lower c"
    by (auto simp: base32_lower_def bytes_of_def)
qed

lemma base32_upper_iff:
  "base32_upper c \<longleftrightarrow> 0x40 < sint c \<and> sint c < 0x5B"
proof
  assume "base32_upper c"
  then show "0x40 < sint c \<and> sint c < 0x5B"
    by (auto simp: base32_upper_def bytes_of_def)
next
  assume r: "0x40 < sint c \<and> sint c < 0x5B"
  have "c \<in> set (map word_of_int [65..90])"
    using r byte_in_range [of 65 c 90] by auto
  then show "base32_upper c"
    by (auto simp: base32_upper_def bytes_of_def)
qed

lemma u32_of_nat:
  assumes "k < 2 ^ 32"
  shows "unat (of_nat k :: u32) = k"
  using assms by (simp add: unat_of_nat)

lemma base32_chars_accept:
  assumes "length src < 2 ^ 32" "length tmp = length src" "k \<le> length src"
    and "\<forall>m. k \<le> m \<and> m < length src \<longrightarrow> base32_lower (src ! m) \<or> base32_upper (src ! m)"
  shows "\<exists>tmp'. base32_chars src (of_nat k) tmp = Some (Inr tmp') \<and> length tmp' = length src"
  using assms
proof (induction "length src - k" arbitrary: k tmp)
  case 0
  then have "k = length src" by simp
  with "0.prems"(1,2) show ?case
    by (subst base32_chars.simps) (simp add: u32_of_nat)
next
  case (Suc n)
  from Suc.hyps(2) have lt: "k < length src" by simp
  with Suc.prems(1) have u: "unat (of_nat k :: u32) = k"
    by (intro u32_of_nat) simp
  have nx: "(of_nat k :: u32) + 1 = of_nat (k + 1)" by simp
  from Suc.prems(4) lt have acc: "base32_lower (src ! k) \<or> base32_upper (src ! k)" by simp
  have ih: "\<exists>tmp'. base32_chars src (of_nat (k + 1)) t = Some (Inr tmp') \<and> length tmp' = length src"
    if "length t = length src" for t
  proof (rule Suc.hyps(1))
    show "n = length src - (k + 1)" using Suc.hyps(2) by simp
    show "length src < 2 ^ 32" by (rule Suc.prems(1))
    show "length t = length src" by (rule that)
    show "k + 1 \<le> length src" using lt by simp
    show "\<forall>m. k + 1 \<le> m \<and> m < length src \<longrightarrow> base32_lower (src ! m) \<or> base32_upper (src ! m)"
      using Suc.prems(4) by simp
  qed
  have l: "length (tmp[k := v]) = length src" for v
    using Suc.prems(2) by simp
  show ?case
    using acc lt ih [OF l [of "src ! k - 0x61"]] ih [OF l [of "src ! k - 0x18"]]
      ih [OF l [of "src ! k - 0x41"]]
    by (subst base32_chars.simps) (auto simp: u nx base32_lower_iff base32_upper_iff)
qed

lemma base32_chars_reject:
  assumes "length src < 2 ^ 32" "k \<le> length src"
    and "\<exists>m. k \<le> m \<and> m < length src \<and> \<not> (base32_lower (src ! m) \<or> base32_upper (src ! m))"
  shows "base32_chars src (of_nat k) tmp = Some (Inl Err)"
  using assms
proof (induction "length src - k" arbitrary: k tmp)
  case 0
  from "0.prems"(3) obtain m where "k \<le> m" "m < length src" by blast
  with "0.hyps" have False by simp
  then show ?case ..
next
  case (Suc n)
  from Suc.hyps(2) have lt: "k < length src" by simp
  with Suc.prems(1) have u: "unat (of_nat k :: u32) = k"
    by (intro u32_of_nat) simp
  have nx: "(of_nat k :: u32) + 1 = of_nat (k + 1)" by simp
  show ?case
  proof (cases "base32_lower (src ! k) \<or> base32_upper (src ! k)")
    case True
    from Suc.prems(3) obtain m where
      m: "k \<le> m" "m < length src" "\<not> (base32_lower (src ! m) \<or> base32_upper (src ! m))"
      by blast
    with True have "m \<noteq> k" by blast
    with m have later: "\<exists>m. k + 1 \<le> m \<and> m < length src
        \<and> \<not> (base32_lower (src ! m) \<or> base32_upper (src ! m))"
      by (intro exI [of _ m]) simp
    have ih: "base32_chars src (of_nat (k + 1)) t = Some (Inl Err)" for t
    proof (rule Suc.hyps(1))
      show "n = length src - (k + 1)" using Suc.hyps(2) by simp
      show "length src < 2 ^ 32" by (rule Suc.prems(1))
      show "k + 1 \<le> length src" using lt by simp
      show "\<exists>m. k + 1 \<le> m \<and> m < length src
          \<and> \<not> (base32_lower (src ! m) \<or> base32_upper (src ! m))"
        by (rule later)
    qed
    show ?thesis
      using lt ih [of "tmp[k := src ! k - 0x61]"] ih [of "tmp[k := src ! k - 0x18]"]
        ih [of "tmp[k := src ! k - 0x41]"]
      by (subst base32_chars.simps) (simp add: u nx)
  next
    case False
    then have "\<not> (0x60 < sint (src ! k) \<and> sint (src ! k) < 0x7B)"
      "\<not> (0x31 < sint (src ! k) \<and> sint (src ! k) < 0x38)"
      "\<not> (0x40 < sint (src ! k) \<and> sint (src ! k) < 0x5B)"
      by (simp_all add: base32_lower_iff base32_upper_iff)
    then show ?thesis
      using lt by (subst base32_chars.simps) (auto simp: u)
  qed
qed

lemma base32_switch_cases:
  fixes p :: nat
  assumes "p mod 8 = 0"
  shows "p mod 40 = 0 \<or> p mod 40 = 8 \<or> p mod 40 = 16 \<or> p mod 40 = 24 \<or> p mod 40 = 32"
proof -
  from assms have "8 dvd p" by (simp add: dvd_eq_mod_eq_0)
  then have p: "p = 8 * (p div 8)" by simp
  have "(8 * (p div 8)) mod (8 * 5) = 8 * ((p div 8) mod 5)"
    by (rule mult_mod_right [symmetric])
  with p have m: "p mod 40 = 8 * ((p div 8) mod 5)" by simp
  have "(p div 8) mod 5 < 5" by simp
  then have "(p div 8) mod 5 = 0 \<or> (p div 8) mod 5 = 1 \<or> (p div 8) mod 5 = 2
      \<or> (p div 8) mod 5 = 3 \<or> (p div 8) mod 5 = 4"
    by linarith
  with m show ?thesis by auto
qed

lemma base32_index_bound:
  fixes p n r :: nat
  assumes "p mod 40 = r" "p + 8 \<le> 5 * n"
  shows "5 * (p div 40 * 8 + r div 5) + r mod 5 + 8 \<le> 5 * n \<and> p div 5 = p div 40 * 8 + r div 5"
proof -
  define a b c where "a = p div 40" and "b = r div 5" and "c = r mod 5"
  have "p = 40 * (p div 40) + p mod 40" by (rule mult_div_mod_eq [symmetric])
  with assms(1) have p: "p = 40 * a + r" by (simp add: a_def)
  have r: "r = 5 * b + c" by (simp add: b_def c_def)
  have c: "c < 5" by (simp add: c_def)
  have q: "p = 5 * (a * 8 + b) + c"
    by (simp add: p r)
  have "(5 * (a * 8 + b) + c) div 5 = a * 8 + b"
    using c by simp
  with q have "p div 5 = a * 8 + b" by simp
  with q assms(2) show ?thesis
    by (simp add: a_def b_def c_def)
qed

lemma base32_index_bounds:
  fixes p n :: nat
  assumes "p + 8 \<le> 5 * n"
  shows "p mod 40 = 0 \<Longrightarrow> p div 5 + 1 < n"
    and "p mod 40 = 8 \<Longrightarrow> p div 5 + 2 < n"
    and "p mod 40 = 16 \<Longrightarrow> p div 5 + 1 < n"
    and "p mod 40 = 24 \<Longrightarrow> p div 5 + 2 < n"
    and "p mod 40 = 32 \<Longrightarrow> p div 5 + 1 < n"
proof -
  show "p mod 40 = 0 \<Longrightarrow> p div 5 + 1 < n"
    using base32_index_bound [of p 0 n] assms by simp
  show "p mod 40 = 8 \<Longrightarrow> p div 5 + 2 < n"
    using base32_index_bound [of p 8 n] assms by simp
  show "p mod 40 = 16 \<Longrightarrow> p div 5 + 1 < n"
    using base32_index_bound [of p 16 n] assms by simp
  show "p mod 40 = 24 \<Longrightarrow> p div 5 + 2 < n"
    using base32_index_bound [of p 24 n] assms by simp
  show "p mod 40 = 32 \<Longrightarrow> p div 5 + 1 < n"
    using base32_index_bound [of p 32 n] assms by simp
qed

lemma base32_byte_ok:
  assumes "p mod 8 = 0" "p + 8 \<le> 5 * length tmp"
  shows "\<exists>b. base32_byte tmp p = Inr b"
proof -
  note b = base32_index_bounds [OF assms(2)]
  from base32_switch_cases [OF assms(1)] show ?thesis
  proof (elim disjE)
    assume c: "p mod 40 = 0"
    with b(1) show ?thesis by (simp add: base32_byte_def tmp_at2_def tmp_at_def)
  next
    assume c: "p mod 40 = 8"
    with b(2) show ?thesis by (simp add: base32_byte_def tmp_at3_def tmp_at_def)
  next
    assume c: "p mod 40 = 16"
    with b(3) show ?thesis by (simp add: base32_byte_def tmp_at2_def tmp_at_def)
  next
    assume c: "p mod 40 = 24"
    with b(4) show ?thesis by (simp add: base32_byte_def tmp_at3_def tmp_at_def)
  next
    assume c: "p mod 40 = 32"
    with b(5) show ?thesis by (simp add: base32_byte_def tmp_at2_def tmp_at_def)
  qed
qed

lemma base32_assemble_ok:
  assumes "nbits = 5 * length tmp" "nbits < 2 ^ 32" "nbits mod 8 = 0"
    and "p mod 8 = 0" "p \<le> nbits" "length dest = p div 8" "nbits div 8 \<le> destlen"
  shows "\<exists>dest'. base32_assemble tmp nbits destlen (of_nat (length dest)) (of_nat p) dest
             = Some (Inr dest')
           \<and> length dest' = nbits div 8"
  using assms
proof (induction "nbits - p" arbitrary: p dest rule: less_induct)
  case less
  from less.prems(3,4) have "8 dvd p" "8 dvd nbits" by (simp_all add: dvd_eq_mod_eq_0)
  then have "p = 8 * (p div 8)" "nbits = 8 * (nbits div 8)" by simp_all
  then obtain u v where ab: "p = 8 * u" "nbits = 8 * v" by blast
  from less.prems(2,5) have pu: "unat (of_nat p :: u32) = p"
    by (intro u32_of_nat) simp
  show ?case
  proof (cases "p < nbits")
    case False
    then have stop: "\<not> unat (of_nat p :: u32) < nbits" by (simp add: pu)
    from False less.prems(5) have "p = nbits" by simp
    with less.prems(6) have "length dest = nbits div 8" by simp
    with stop show ?thesis
      by (subst base32_assemble.simps) simp
  next
    case True
    with ab have uv: "u + 1 \<le> v" by simp
    with ab have step: "p + 8 \<le> nbits" by simp
    with less.prems(1) have room: "p + 8 \<le> 5 * length tmp" by simp
    from base32_byte_ok [OF less.prems(4) room] obtain b where b: "base32_byte tmp p = Inr b"
      by blast
    from ab less.prems(6) have lu: "length dest = u" by simp
    from ab have "nbits div 8 = v" by simp
    with uv lu less.prems(7) have inside: "length dest < destlen" by simp
    from lu uv ab less.prems(2) have "length dest < 2 ^ 32" by simp
    then have iu: "unat (of_nat (length dest) :: u32) = length dest"
      by (rule u32_of_nat)
    have nx: "(of_nat (length dest) :: u32) + 1 = of_nat (length (dest @ [b]))"
      "(of_nat p :: u32) + 8 = of_nat (p + 8)"
      by simp_all
    have "\<exists>dest'. base32_assemble tmp nbits destlen (of_nat (length (dest @ [b])))
               (of_nat (p + 8)) (dest @ [b]) = Some (Inr dest')
             \<and> length dest' = nbits div 8"
    proof (rule less.hyps)
      show "nbits - (p + 8) < nbits - p" using True by simp
      show "nbits = 5 * length tmp" by (rule less.prems(1))
      show "nbits < 2 ^ 32" by (rule less.prems(2))
      show "nbits mod 8 = 0" by (rule less.prems(3))
      show "(p + 8) mod 8 = 0" using less.prems(4) by simp
      show "p + 8 \<le> nbits" by (rule step)
      show "length (dest @ [b]) = (p + 8) div 8" using ab lu by simp
      show "nbits div 8 \<le> destlen" by (rule less.prems(7))
    qed
    then obtain dest' where
      d: "base32_assemble tmp nbits destlen (of_nat (length (dest @ [b])))
               (of_nat (p + 8)) (dest @ [b]) = Some (Inr dest')"
        "length dest' = nbits div 8"
      by blast
    have "base32_assemble tmp nbits destlen (of_nat (length dest)) (of_nat p) dest
        = Some (Inr dest')"
      using True b inside d(1)
      by (subst base32_assemble.simps) (simp add: pu iu nx dest_write_def del: of_nat_add of_nat_Suc length_append)
    with d(2) show ?thesis by blast
  qed
qed

text \<open>
  C9 (amended). For an input of fewer than \<open>2 ^ 32 / 5\<close> characters, and with the function's
  assertions met (\<open>5 * srclen\<close> a multiple of 8, room in the output, a capacity below
  \<^verbatim>\<open>SIZE_T_CEILING\<close>), \<^verbatim>\<open>base32_decode\<close> returns, and it returns \<open>-1\<close> exactly when
  some input character is neither in the lowercase alphabet
  \<open>abcdefghijklmnopqrstuvwxyz234567\<close> nor an uppercase letter \<open>A\<close> to \<open>Z\<close>; in every
  other case it returns 0 and writes \<open>5 * srclen / 8\<close> bytes. In particular every such
  input over the lowercase alphabet succeeds. The bound on the length is needed: the
  loop counters are 32-bit \<^verbatim>\<open>unsigned int\<close>s against 64-bit sizes, and beyond it they wrap
  around before they reach their bound.
\<close>

theorem C9_base32_decode:
  assumes "5 * length src < 2 ^ 32"
    and "(length src * 5) mod 8 = 0" "(length src * 5) div 8 \<le> destlen" "destlen < ceiling"
  shows "(base32_decode ceiling destlen src = Some (Inl Err)
            \<longleftrightarrow> (\<exists>c\<in>set src. \<not> (base32_lower c \<or> base32_upper c)))
         \<and> ((\<forall>c\<in>set src. base32_lower c \<or> base32_upper c) \<longrightarrow>
              (\<exists>dest. base32_decode ceiling destlen src = Some (Inr (0, dest))
                  \<and> length dest = (length src * 5) div 8))
         \<and> ((\<forall>c\<in>set src. base32_lower c) \<longrightarrow>
              (\<exists>dest. base32_decode ceiling destlen src = Some (Inr (0, dest))))"
proof -
  from assms(1) have nb: "size_t_of (length src * 5) = length src * 5"
    by (simp add: size_t_of_def)
  from assms(1) have short: "length src < 2 ^ 32" by simp
  have z: "(0 :: u32) = of_nat 0" by simp
  have ok: "\<exists>dest. base32_decode ceiling destlen src = Some (Inr (0, dest))
      \<and> length dest = (length src * 5) div 8"
    if acc: "\<forall>c\<in>set src. base32_lower c \<or> base32_upper c"
  proof -
    from acc have "\<forall>m. 0 \<le> m \<and> m < length src
        \<longrightarrow> base32_lower (src ! m) \<or> base32_upper (src ! m)"
      by simp
    from base32_chars_accept [OF short _ _ this, of "replicate (length src) 0"] obtain tmp where
      tmp: "base32_chars src 0 (replicate (length src) 0) = Some (Inr tmp)"
        "length tmp = length src"
      by auto
    have n: "length src * 5 = 5 * length tmp" using tmp(2) by simp
    have b: "length src * 5 < 2 ^ 32" using assms(1) by (simp add: mult.commute)
    have e: "length ([] :: byte list) = 0 div 8" by simp
    from base32_assemble_ok [OF n b assms(2) _ _ e assms(3)] obtain dest where
      "base32_assemble tmp (length src * 5) destlen 0 0 [] = Some (Inr dest)"
      "length dest = (length src * 5) div 8"
      by auto
    with tmp assms show ?thesis
      by (simp add: base32_decode_def nb)
  qed
  have bad: "base32_decode ceiling destlen src = Some (Inl Err)"
    if "\<exists>c\<in>set src. \<not> (base32_lower c \<or> base32_upper c)"
  proof -
    from that have "\<exists>m. 0 \<le> m \<and> m < length src
        \<and> \<not> (base32_lower (src ! m) \<or> base32_upper (src ! m))"
      by (auto simp: in_set_conv_nth)
    from base32_chars_reject [OF short _ this, of "replicate (length src) 0"]
    have "base32_chars src 0 (replicate (length src) 0) = Some (Inl Err)" by simp
    with assms show ?thesis by (simp add: base32_decode_def nb)
  qed
  have iff: "base32_decode ceiling destlen src = Some (Inl Err)
      \<longleftrightarrow> (\<exists>c\<in>set src. \<not> (base32_lower c \<or> base32_upper c))"
  proof
    assume e: "base32_decode ceiling destlen src = Some (Inl Err)"
    show "\<exists>c\<in>set src. \<not> (base32_lower c \<or> base32_upper c)"
    proof (rule ccontr)
      assume "\<not> (\<exists>c\<in>set src. \<not> (base32_lower c \<or> base32_upper c))"
      then have "\<forall>c\<in>set src. base32_lower c \<or> base32_upper c" by blast
      from ok [OF this] e show False by auto
    qed
  next
    assume "\<exists>c\<in>set src. \<not> (base32_lower c \<or> base32_upper c)"
    then show "base32_decode ceiling destlen src = Some (Inl Err)" by (rule bad)
  qed
  have low: "\<exists>dest. base32_decode ceiling destlen src = Some (Inr (0, dest))"
    if "\<forall>c\<in>set src. base32_lower c"
  proof -
    from that have "\<forall>c\<in>set src. base32_lower c \<or> base32_upper c" by blast
    from ok [OF this] show ?thesis by blast
  qed
  from iff ok low show ?thesis by blast
qed

lemmas base32_run = base32_decode_def bytes_of_def base32_chars.simps base32_assemble.simps
  base32_byte_def tmp_at2_def tmp_at3_def tmp_at_def dest_write_def size_t_of_def

lemma base32_example_upper:
  "base32_decode (2 ^ 63) 5 (bytes_of ''AAAAAAAA'') = Some (Inr (0, [0, 0, 0, 0, 0]))"
  by (simp add: base32_run)

theorem C9_base32_decode_counterexample:
  "\<not> base32_lower (of_nat (of_char CHR ''A''))
   \<and> base32_decode (2 ^ 63) 5 (bytes_of ''AAAAAAAA'') = Some (Inr (0, [0, 0, 0, 0, 0]))"
  using base32_example_upper by (simp add: base32_lower_def bytes_of_def)

theorem C9_base32_decode_witness:
  "5 * length (bytes_of ''mzxw6yt1'') < 2 ^ 32
   \<and> base32_decode (2 ^ 63) 5 (bytes_of ''mzxw6ytb'') = Some (Inr (0, bytes_of ''fooba''))
   \<and> base32_decode (2 ^ 63) 5 (bytes_of ''mzxw6yt1'') = Some (Inl Err)
   \<and> base32_decode (2 ^ 63) 5 (bytes_of ''MZXW6YTB'') = Some (Inr (0, bytes_of ''fooba''))"
proof -
  have a: "5 * length (bytes_of ''mzxw6yt1'') < 2 ^ 32"
    "(length (bytes_of ''mzxw6yt1'') * 5) mod 8 = 0"
    "(length (bytes_of ''mzxw6yt1'') * 5) div 8 \<le> 5" "(5::nat) < 2 ^ 63"
    by (simp_all add: bytes_of_def)
  have "base32_decode (2 ^ 63) 5 (bytes_of ''mzxw6yt1'') = Some (Inl Err)"
    using C9_base32_decode [OF a]
    by (simp add: bytes_of_def base32_lower_def base32_upper_def)
  moreover have "base32_decode (2 ^ 63) 5 (bytes_of ''mzxw6ytb'') = Some (Inr (0, bytes_of ''fooba''))"
    by (simp add: base32_run)
  moreover have "base32_decode (2 ^ 63) 5 (bytes_of ''MZXW6YTB'') = Some (Inr (0, bytes_of ''fooba''))"
    by (simp add: base32_run)
  ultimately show ?thesis using a(1) by simp
qed

subsection \<open>C10: the one-time initialisation flag\<close>

text \<open>
  C10. A first call of \<^verbatim>\<open>crypto_global_init\<close> sets the flag before it registers engines
  and before it seeds the generator, whatever those two steps return. So after a first
  call that failed, every later call returns 0 at once: the state is unchanged and
  neither step is retried.
\<close>

theorem C10_global_init_flag:
  assumes "\<not> crypto_global_initialized g"
    and "crypto_global_init useAccel reg seed g = (r, g')"
  shows "crypto_global_initialized g'
         \<and> (\<exists>pre post. events g' = events g @ pre @ [SetInitialized] @ post
                \<and> RegisterAllComplete \<notin> set pre \<and> SeedRng \<notin> set pre
                \<and> (useAccel > 0 \<and> \<not> reg \<longrightarrow> r = - 1 \<and> SeedRng \<notin> set post))
         \<and> (useAccel \<le> 0 \<or> reg \<longrightarrow> r = seed)
         \<and> crypto_global_init useAccel2 reg2 seed2 g' = (0, g')"
proof -
  let ?pre = "[LoadCryptoStrings, AddAllAlgorithms]"
  have flag: "crypto_global_initialized g'"
    using assms by (auto simp: crypto_global_init_def do_event_def Let_def split: if_splits)
  have "\<exists>post. events g' = events g @ ?pre @ [SetInitialized] @ post
      \<and> (useAccel > 0 \<and> \<not> reg \<longrightarrow> r = - 1 \<and> SeedRng \<notin> set post)"
    using assms by (auto simp: crypto_global_init_def do_event_def Let_def split: if_splits)
  then obtain post where post: "events g' = events g @ ?pre @ [SetInitialized] @ post"
    "useAccel > 0 \<and> \<not> reg \<longrightarrow> r = - 1 \<and> SeedRng \<notin> set post"
    by blast
  have "RegisterAllComplete \<notin> set ?pre \<and> SeedRng \<notin> set ?pre"
    by simp
  with post have order: "\<exists>pre post. events g' = events g @ pre @ [SetInitialized] @ post
      \<and> RegisterAllComplete \<notin> set pre \<and> SeedRng \<notin> set pre
      \<and> (useAccel > 0 \<and> \<not> reg \<longrightarrow> r = - 1 \<and> SeedRng \<notin> set post)"
    by blast
  have res: "useAccel \<le> 0 \<or> reg \<longrightarrow> r = seed"
    using assms by (auto simp: crypto_global_init_def do_event_def Let_def split: if_splits)
  have again: "crypto_global_init useAccel2 reg2 seed2 g' = (0, g')"
    using flag by (simp add: crypto_global_init_def)
  from flag order res again show ?thesis by blast
qed

theorem C10_global_init_flag_witness:
  "crypto_global_init 1 True 0
     (snd (crypto_global_init 1 False 0 \<lparr>crypto_global_initialized = False, events = []\<rparr>))
   = (0, \<lparr>crypto_global_initialized = True,
          events = [LoadCryptoStrings, AddAllAlgorithms, SetInitialized, SetupThreading,
                    LoadBuiltinEngines, RegisterAllComplete]\<rparr>)
   \<and> fst (crypto_global_init 1 False 0 \<lparr>crypto_global_initialized = False, events = []\<rparr>) = - 1"
proof -
  let ?g = "\<lparr>crypto_global_initialized = False, events = []\<rparr>"
  let ?g' = "\<lparr>crypto_global_initialized = True,
          events = [LoadCryptoStrings, AddAllAlgorithms, SetInitialized, SetupThreading,
                    LoadBuiltinEngines, RegisterAllComplete]\<rparr>"
  have first: "crypto_global_init 1 False 0 ?g = (- 1, ?g')"
    by (simp add: crypto_global_init_def do_event_def)
  have "\<not> crypto_global_initialized ?g"
    by simp
  from C10_global_init_flag [OF this first, of 1 True 0] first show ?thesis
    by simp
qed

end
